theory Spec2Isabelle
  imports Main "HOL-Library.Char_ord" "HOL-Library.List_Lexorder" "HOL-Library.Product_Lexorder"
begin

section \<open>The dependency graph engine of XcodeLibPlot.py\<close>

text \<open>
  The theory embeds the class \<open>Graph\<close> of \<open>XcodeLibPlot.py\<close>: the builders
  (\<open>add_target\<close>, \<open>add_lib\<close>, \<open>add_edge\<close>), the filter stage (\<open>apply_filters\<close>), the
  cycle detector (\<open>mark_cycles\<close>, a recursive Tarjan traversal) and the two global exports
  (\<open>to_dot\<close>, \<open>export_json\<close>).

  Modelling conventions.
  \<^item> A Python \<open>str\<close> is a \<open>string\<close>; \<open>sorted\<close> on strings and on pairs of strings is the
    lexicographic order of \<open>Char_ord\<close>, \<open>List_Lexorder\<close> and \<open>Product_Lexorder\<close>.
  \<^item> A Python \<open>set\<close> that the code iterates over is the list of its members in iteration
    order. CPython fixes that order by hashes, not by insertion; the model does not fix
    it: the theorems about a graph state hold for every order of its lists. \<open>set_add\<close>
    is \<open>set.add\<close>.
  \<^item> A Python \<open>dict\<close> that is only read by key is a map.
  \<^item> A compiled regular expression is used only through \<open>p.search(text)\<close>: a pattern is
    the predicate "\<open>p.search(text)\<close> is not \<open>None\<close>".
  \<^item> Exceptions are values of \<open>error\<close>; a function that can raise returns \<open>error + 'a\<close>.
\<close>

subsection \<open>Strings\<close>

definition lower_char :: "char \<Rightarrow> char" where
  "lower_char c =
     (case map_of (zip ''ABCDEFGHIJKLMNOPQRSTUVWXYZ'' ''abcdefghijklmnopqrstuvwxyz'') c of
        None \<Rightarrow> c | Some l \<Rightarrow> l)"

text \<open>\<open>s.lower()\<close>, on the ASCII letters.\<close>

definition lower :: "string \<Rightarrow> string" where
  "lower s = map lower_char s"

fun starts_with :: "string \<Rightarrow> string \<Rightarrow> bool" where
  "starts_with [] s = True"
| "starts_with (c # cs) [] = False"
| "starts_with (c # cs) (d # ds) = (c = d \<and> starts_with cs ds)"

text \<open>\<open>sub in s\<close> for two strings.\<close>

fun str_in :: "string \<Rightarrow> string \<Rightarrow> bool" where
  "str_in sub [] = (sub = [])"
| "str_in sub (c # cs) = (starts_with sub (c # cs) \<or> str_in sub cs)"

subsection \<open>The graph store\<close>

definition set_add :: "'a \<Rightarrow> 'a list \<Rightarrow> 'a list" where
  "set_add x xs = (if x \<in> set xs then xs else xs @ [x])"

text \<open>
  A value of \<open>lib_meta\<close> is a dict with the optional keys \<open>"ext"\<close> and \<open>"is_system"\<close>;
  \<open>None\<close> is the absent key (\<open>add_lib\<close> never stores \<open>None\<close> under a key).
\<close>

record libmeta =
  meta_ext :: "string option"
  meta_is_system :: "bool option"

definition empty_meta :: libmeta where
  "empty_meta = \<lparr>meta_ext = None, meta_is_system = None\<rparr>"

record graph =
  target_nodes :: "string list"
  lib_nodes :: "string list"
  edges :: "(string \<times> string) list"
  annotations :: "string \<rightharpoonup> string"
  lib_meta :: "string \<rightharpoonup> libmeta"
  cycle_nodes :: "string list"
  cycle_edges :: "(string \<times> string) list"
  cycle_components :: "string list list"

definition Graph_init :: graph where
  "Graph_init =
     \<lparr>target_nodes = [], lib_nodes = [], edges = [], annotations = Map.empty,
      lib_meta = Map.empty, cycle_nodes = [], cycle_edges = [], cycle_components = []\<rparr>"

definition add_target :: "string \<Rightarrow> graph \<Rightarrow> graph" where
  "add_target name g = g\<lparr>target_nodes := set_add name (target_nodes g)\<rparr>"

text \<open>\<open>self.lib_meta.get(name, {})\<close>\<close>

definition meta_get :: "(string \<rightharpoonup> libmeta) \<Rightarrow> string \<Rightarrow> libmeta" where
  "meta_get lm name = (case lm name of None \<Rightarrow> empty_meta | Some m \<Rightarrow> m)"

definition add_lib :: "string \<Rightarrow> string option \<Rightarrow> bool \<Rightarrow> string option \<Rightarrow> graph \<Rightarrow> graph" where
  "add_lib name subtitle is_system ext g =
     (let ann = (case subtitle of
                   None \<Rightarrow> annotations g
                 | Some s \<Rightarrow> if s \<noteq> [] then (annotations g)(name \<mapsto> s) else annotations g);
          meta0 = meta_get (lib_meta g) name;
          meta1 = (case ext of None \<Rightarrow> meta0 | Some e \<Rightarrow> meta0\<lparr>meta_ext := Some e\<rparr>);
          meta2 = (case meta_is_system meta1 of
                     None \<Rightarrow> meta1\<lparr>meta_is_system := Some is_system\<rparr>
                   | Some b \<Rightarrow> meta1\<lparr>meta_is_system := Some (b \<or> is_system)\<rparr>)
      in g\<lparr>lib_nodes := set_add name (lib_nodes g),
           annotations := ann,
           lib_meta := (lib_meta g)(name \<mapsto> meta2)\<rparr>)"

definition add_edge :: "string \<Rightarrow> string \<Rightarrow> graph \<Rightarrow> graph" where
  "add_edge src dst g =
     (if src \<noteq> [] \<and> dst \<noteq> [] then g\<lparr>edges := set_add (src, dst) (edges g)\<rparr> else g)"

subsection \<open>Queries\<close>

definition lib_in_degree :: "graph \<Rightarrow> string \<Rightarrow> nat" where
  "lib_in_degree g lib =
     length (filter (\<lambda>(a, b). b = lib \<and> a \<in> set (target_nodes g)) (edges g))"

text \<open>\<open>bool(meta.get("is_system"))\<close> and \<open>meta.get("ext")\<close> of the exports.\<close>

definition lib_is_system :: "graph \<Rightarrow> string \<Rightarrow> bool" where
  "lib_is_system g name = (meta_is_system (meta_get (lib_meta g) name) = Some True)"

definition lib_ext :: "graph \<Rightarrow> string \<Rightarrow> string option" where
  "lib_ext g name = meta_ext (meta_get (lib_meta g) name)"

subsection \<open>The filter stage\<close>

type_synonym pattern = "string \<Rightarrow> bool"

definition match_any :: "pattern list \<Rightarrow> string \<Rightarrow> bool" where
  "match_any patterns text = list_ex (\<lambda>p. p text) patterns"

definition target_allowed :: "pattern list \<Rightarrow> pattern list \<Rightarrow> string \<Rightarrow> bool" where
  "target_allowed include_targets exclude_targets t =
     (if exclude_targets \<noteq> [] \<and> match_any exclude_targets t then False
      else if include_targets \<noteq> [] then match_any include_targets t
      else True)"

text \<open>
  Lines 283 to 293 of \<open>lib_allowed\<close>: the suffix key of a library, with the inference of
  the pseudo-suffix \<open>"spm"\<close> from a subtitle that holds \<open>"http"\<close>. It reads
  \<open>self.annotations\<close> and reads and writes \<open>self.lib_meta\<close>: it returns the key with the
  new \<open>lib_meta\<close>.
\<close>

definition has_url :: "(string \<rightharpoonup> string) \<Rightarrow> string \<Rightarrow> bool" where
  "has_url ann l = (case ann l of None \<Rightarrow> False | Some s \<Rightarrow> s \<noteq> [] \<and> str_in ''http'' (lower s))"

definition ext_key_of ::
  "(string \<rightharpoonup> string) \<Rightarrow> string \<Rightarrow> (string \<rightharpoonup> libmeta) \<Rightarrow> string \<times> (string \<rightharpoonup> libmeta)" where
  "ext_key_of ann l lm =
     (let meta0 = meta_get lm l;
          ext = lower (case meta_ext meta0 of None \<Rightarrow> [] | Some e \<Rightarrow> e)
      in if has_url ann l
         then (if meta_ext meta0 = None
               then (''spm'', lm(l \<mapsto> meta0\<lparr>meta_ext := Some ''spm''\<rparr>))
               else (ext, lm))
         else if meta_ext meta0 = Some ''spm'' then (''spm'', lm)
         else (ext, lm))"

text \<open>
  \<open>inc_suf\<close> and \<open>exc_suf\<close> are the lower-cased suffix sets, used for emptiness and
  membership only.
\<close>

definition lib_allowed ::
  "pattern list \<Rightarrow> pattern list \<Rightarrow> string list \<Rightarrow> string list \<Rightarrow> (string \<rightharpoonup> string) \<Rightarrow>
   string \<Rightarrow> (string \<rightharpoonup> libmeta) \<Rightarrow> bool \<times> (string \<rightharpoonup> libmeta)" where
  "lib_allowed include_libs exclude_libs inc_suf exc_suf ann l lm =
     (if exclude_libs \<noteq> [] \<and> match_any exclude_libs l then (False, lm)
      else if include_libs \<noteq> [] \<and> \<not> match_any include_libs l then (False, lm)
      else
        let (ext_key, lm') = ext_key_of ann l lm
        in if inc_suf \<noteq> [] \<and> ext_key \<notin> set inc_suf then (False, lm')
           else if exc_suf \<noteq> [] \<and> ext_key \<in> set exc_suf then (False, lm')
           else (True, lm'))"

text \<open>The first loop of \<open>apply_filters\<close>, over \<open>self.edges\<close>, building \<open>new_edges\<close>.\<close>

fun prune_edges ::
  "(string \<Rightarrow> bool) \<Rightarrow> (string \<Rightarrow> (string \<rightharpoonup> libmeta) \<Rightarrow> bool \<times> (string \<rightharpoonup> libmeta)) \<Rightarrow>
   string list \<Rightarrow> string list \<Rightarrow> (string \<times> string) list \<Rightarrow>
   (string \<times> string) list \<times> (string \<rightharpoonup> libmeta) \<Rightarrow> (string \<times> string) list \<times> (string \<rightharpoonup> libmeta)" where
  "prune_edges t_ok l_ok tn ln [] (new_edges, lm) = (new_edges, lm)"
| "prune_edges t_ok l_ok tn ln ((a, b) # es) (new_edges, lm) =
     (if a \<in> set tn \<and> \<not> t_ok a then prune_edges t_ok l_ok tn ln es (new_edges, lm)
      else if b \<in> set tn \<and> \<not> t_ok b then prune_edges t_ok l_ok tn ln es (new_edges, lm)
      else if b \<in> set ln then
        (let (ok, lm') = l_ok b lm
         in if \<not> ok then prune_edges t_ok l_ok tn ln es (new_edges, lm')
            else prune_edges t_ok l_ok tn ln es (set_add (a, b) new_edges, lm'))
      else prune_edges t_ok l_ok tn ln es (set_add (a, b) new_edges, lm))"

text \<open>The second loop, over the surviving edges, building \<open>kept_targets\<close> and \<open>kept_libs\<close>.\<close>

fun kept_nodes ::
  "string list \<Rightarrow> string list \<Rightarrow> (string \<times> string) list \<Rightarrow> string list \<times> string list \<Rightarrow>
   string list \<times> string list" where
  "kept_nodes tn ln [] (kept_targets, kept_libs) = (kept_targets, kept_libs)"
| "kept_nodes tn ln ((a, b) # es) (kept_targets, kept_libs) =
     (let kt1 = (if a \<in> set tn then set_add a kept_targets else kept_targets);
          kt2 = (if b \<in> set tn then set_add b kt1 else kt1);
          kl1 = (if b \<in> set ln then set_add b kept_libs else kept_libs)
      in kept_nodes tn ln es (kt2, kl1))"

text \<open>The third loop, over \<open>self.target_nodes\<close>, under \<open>keep_isolated_included_targets\<close>.\<close>

fun keep_isolated :: "(string \<Rightarrow> bool) \<Rightarrow> string list \<Rightarrow> string list \<Rightarrow> string list" where
  "keep_isolated t_ok [] kept_targets = kept_targets"
| "keep_isolated t_ok (t # ts) kept_targets =
     (if t_ok t \<and> t \<notin> set kept_targets then keep_isolated t_ok ts (set_add t kept_targets)
      else keep_isolated t_ok ts kept_targets)"

definition apply_filters ::
  "pattern list \<Rightarrow> pattern list \<Rightarrow> pattern list \<Rightarrow> pattern list \<Rightarrow> string list \<Rightarrow> string list \<Rightarrow>
   bool \<Rightarrow> graph \<Rightarrow> graph" where
  "apply_filters include_targets exclude_targets include_libs exclude_libs
     include_suffixes exclude_suffixes keep_isolated_included_targets g =
     (let inc_suf = map lower include_suffixes;
          exc_suf = map lower exclude_suffixes;
          t_ok = target_allowed include_targets exclude_targets;
          l_ok = lib_allowed include_libs exclude_libs inc_suf exc_suf (annotations g);
          (new_edges, lm) =
             prune_edges t_ok l_ok (target_nodes g) (lib_nodes g) (edges g) ([], lib_meta g);
          (kt, kept_libs) = kept_nodes (target_nodes g) (lib_nodes g) new_edges ([], []);
          kept_targets = (if keep_isolated_included_targets
                          then keep_isolated t_ok (target_nodes g) kt else kt)
      in g\<lparr>edges := new_edges,
           target_nodes := kept_targets,
           lib_nodes := kept_libs,
           lib_meta := lm |` set kept_libs,
           annotations := annotations g |` set kept_libs\<rparr>)"

subsection \<open>The cycle detector\<close>

text \<open>
  \<open>_build_adjacency\<close>. The dict \<open>adj\<close> is iterated by key (\<open>adj.keys()\<close>, in insertion
  order) and each of its values is an iterated set: it is an association list from a key
  to the list of its successors.
\<close>

type_synonym adjacency = "(string \<times> string list) list"

text \<open>\<open>adj.setdefault(k, set())\<close>\<close>

definition adj_setdefault :: "string \<Rightarrow> adjacency \<Rightarrow> adjacency" where
  "adj_setdefault k adj = (if k \<in> fst ` set adj then adj else adj @ [(k, [])])"

text \<open>\<open>adj[a].add(b)\<close>, for a key \<open>a\<close> of \<open>adj\<close>\<close>

definition adj_add :: "string \<Rightarrow> string \<Rightarrow> adjacency \<Rightarrow> adjacency" where
  "adj_add a b adj = map (\<lambda>(k, ws). if k = a then (k, set_add b ws) else (k, ws)) adj"

text \<open>\<open>adj.get(v, ())\<close>\<close>

definition adj_get :: "adjacency \<Rightarrow> string \<Rightarrow> string list" where
  "adj_get adj v = (case map_of adj v of None \<Rightarrow> [] | Some ws \<Rightarrow> ws)"

fun adjacency_of_edges :: "(string \<times> string) list \<Rightarrow> adjacency \<Rightarrow> adjacency" where
  "adjacency_of_edges [] adj = adj"
| "adjacency_of_edges ((a, b) # es) adj =
     adjacency_of_edges es (adj_setdefault b (adj_add a b (adj_setdefault a adj)))"

definition build_adjacency :: "graph \<Rightarrow> adjacency" where
  "build_adjacency g =
     fold adj_setdefault
       (target_nodes g @ filter (\<lambda>l. l \<notin> set (target_nodes g)) (lib_nodes g))
       (adjacency_of_edges (edges g) [])"

datatype error = RecursionError | KeyError | IndexError

text \<open>
  The variables that \<open>strongconnect\<close> shares with \<open>mark_cycles\<close>. The list \<open>stack\<close> is
  kept with its top first: \<open>stack.append(v)\<close> is \<open>v # stack\<close>, \<open>stack.pop()\<close> takes the
  head. \<open>onstack\<close> is a set that is never iterated.
\<close>

record tarjan =
  index :: nat
  indices :: "string \<rightharpoonup> nat"
  low :: "string \<rightharpoonup> nat"
  stack :: "string list"
  onstack :: "string set"
  sccs :: "string list list"

definition tarjan_init :: tarjan where
  "tarjan_init =
     \<lparr>index = 0, indices = Map.empty, low = Map.empty, stack = [], onstack = {}, sccs = []\<rparr>"

text \<open>
  The loop \<open>while True: w = stack.pop(); onstack.remove(w); comp.append(w); if w == v: break\<close>
  (\<open>cmp\<close> is the list \<open>comp\<close> of the source).
  \<open>pop\<close> of an empty list raises \<open>IndexError\<close>, \<open>remove\<close> of an absent member \<open>KeyError\<close>.
\<close>

fun pop_component ::
  "string \<Rightarrow> string list \<Rightarrow> string set \<Rightarrow> string list \<Rightarrow>
   error + (string list \<times> string set \<times> string list)" where
  "pop_component v [] ons cmp = Inl IndexError"
| "pop_component v (w # st) ons cmp =
     (if w \<notin> ons then Inl KeyError
      else if w = v then Inr (st, ons - {w}, cmp @ [w])
      else pop_component v st (ons - {w}) (cmp @ [w]))"

text \<open>
  \<open>strongconnect\<close> is recursive in the source. Its first argument is the number of calls
  of \<open>strongconnect\<close> that may still be nested before the interpreter's recursion limit is
  reached: at \<open>0\<close> the call raises \<open>RecursionError\<close>. \<open>visit_successors\<close> is the loop
  \<open>for w in adj.get(v, ())\<close> of one call. Reading an absent key of \<open>low\<close> or \<open>indices\<close>
  raises \<open>KeyError\<close>.
\<close>

fun strongconnect :: "nat \<Rightarrow> adjacency \<Rightarrow> string \<Rightarrow> tarjan \<Rightarrow> error + tarjan"
and visit_successors :: "nat \<Rightarrow> adjacency \<Rightarrow> string \<Rightarrow> string list \<Rightarrow> tarjan \<Rightarrow> error + tarjan" where
  "strongconnect 0 adj v s = Inl RecursionError"
| "strongconnect (Suc d) adj v s =
     (case visit_successors d adj v (adj_get adj v)
             (s\<lparr>indices := (indices s)(v \<mapsto> index s),
                low := (low s)(v \<mapsto> index s),
                index := index s + 1,
                stack := v # stack s,
                onstack := insert v (onstack s)\<rparr>) of
        Inl e \<Rightarrow> Inl e
      | Inr s' \<Rightarrow>
          (case (low s' v, indices s' v) of
             (Some lv, Some iv) \<Rightarrow>
               if lv = iv then
                 (case pop_component v (stack s') (onstack s') [] of
                    Inl e \<Rightarrow> Inl e
                  | Inr (st, ons, cmp) \<Rightarrow>
                      Inr (s'\<lparr>stack := st, onstack := ons, sccs := sccs s' @ [cmp]\<rparr>))
               else Inr s'
           | _ \<Rightarrow> Inl KeyError))"
| "visit_successors d adj v [] s = Inr s"
| "visit_successors d adj v (w # ws) s =
     (if indices s w = None then
        (case strongconnect d adj w s of
           Inl e \<Rightarrow> Inl e
         | Inr s' \<Rightarrow>
             (case (low s' v, low s' w) of
                (Some lv, Some lw) \<Rightarrow>
                  visit_successors d adj v ws (s'\<lparr>low := (low s')(v \<mapsto> min lv lw)\<rparr>)
              | _ \<Rightarrow> Inl KeyError))
      else if w \<in> onstack s then
        (case (low s v, indices s w) of
           (Some lv, Some iw) \<Rightarrow>
             visit_successors d adj v ws (s\<lparr>low := (low s)(v \<mapsto> min lv iw)\<rparr>)
         | _ \<Rightarrow> Inl KeyError)
      else visit_successors d adj v ws s)"

text \<open>The loop \<open>for v in adj.keys(): if v not in indices: strongconnect(v)\<close>.\<close>

fun visit_keys :: "nat \<Rightarrow> adjacency \<Rightarrow> string list \<Rightarrow> tarjan \<Rightarrow> error + tarjan" where
  "visit_keys limit adj [] s = Inr s"
| "visit_keys limit adj (v # vs) s =
     (if indices s v = None then
        (case strongconnect limit adj v s of
           Inl e \<Rightarrow> Inl e
         | Inr s' \<Rightarrow> visit_keys limit adj vs s')
      else visit_keys limit adj vs s)"

text \<open>Lines 375 to 381: whether a component is a cycle.\<close>

definition is_cycle :: "adjacency \<Rightarrow> string list \<Rightarrow> bool" where
  "is_cycle adj cmp =
     (if length cmp > 1 then True
      else if length cmp = 1 then hd cmp \<in> set (adj_get adj (hd cmp))
      else False)"

text \<open>The loop \<open>for a, b in self.edges\<close> of one cycle component.\<close>

fun mark_edges ::
  "string list \<Rightarrow> (string \<times> string) list \<Rightarrow> (string \<times> string) list \<Rightarrow> (string \<times> string) list" where
  "mark_edges cmp [] ce = ce"
| "mark_edges cmp ((a, b) # es) ce =
     (if a \<in> set cmp \<and> b \<in> set cmp then mark_edges cmp es (set_add (a, b) ce)
      else mark_edges cmp es ce)"

text \<open>
  The loop \<open>for comp in sccs\<close>, on \<open>cycle_nodes\<close>, \<open>cycle_edges\<close> and \<open>cycle_components\<close>.
\<close>

fun mark_components ::
  "adjacency \<Rightarrow> (string \<times> string) list \<Rightarrow> string list list \<Rightarrow>
   string list \<times> (string \<times> string) list \<times> string list list \<Rightarrow>
   string list \<times> (string \<times> string) list \<times> string list list" where
  "mark_components adj es [] (cn, ce, cc) = (cn, ce, cc)"
| "mark_components adj es (cmp # cmps) (cn, ce, cc) =
     (if is_cycle adj cmp
      then mark_components adj es cmps
             (fold set_add (sort cmp) cn, mark_edges cmp es ce, cc @ [sort cmp])
      else mark_components adj es cmps (cn, ce, cc))"

text \<open>
  \<open>mark_cycles\<close>, under a recursion limit: \<open>limit\<close> is the number of nested calls of
  \<open>strongconnect\<close> that the interpreter allows below \<open>mark_cycles\<close>.
\<close>

definition mark_cycles :: "nat \<Rightarrow> graph \<Rightarrow> error + graph" where
  "mark_cycles limit g =
     (let adj = build_adjacency g
      in case visit_keys limit adj (map fst adj) tarjan_init of
           Inl e \<Rightarrow> Inl e
         | Inr s \<Rightarrow>
             (let (cn, ce, cc) = mark_components adj (edges g) (sccs s) ([], [], [])
              in Inr (g\<lparr>cycle_nodes := cn, cycle_edges := ce, cycle_components := cc\<rparr>)))"

subsection \<open>Notions used in the statements\<close>

text \<open>
  \<open>spm_inferred ann lm0 lm\<close>: \<open>lm\<close> is \<open>lm0\<close> but for libraries on which \<open>ext_key_of\<close> has
  stored its inference of \<open>"spm"\<close>.
\<close>

definition spm_inferred ::
  "(string \<rightharpoonup> string) \<Rightarrow> (string \<rightharpoonup> libmeta) \<Rightarrow> (string \<rightharpoonup> libmeta) \<Rightarrow> bool" where
  "spm_inferred ann lm0 lm =
     (\<forall>l. lm l = lm0 l \<or>
          (has_url ann l \<and> meta_ext (meta_get lm0 l) = None \<and>
           lm l = Some ((meta_get lm0 l)\<lparr>meta_ext := Some ''spm''\<rparr>)))"

text \<open>The verdict of \<open>lib_allowed\<close> on the graph as \<open>apply_filters\<close> receives it.\<close>

definition lib_passes ::
  "pattern list \<Rightarrow> pattern list \<Rightarrow> string list \<Rightarrow> string list \<Rightarrow> graph \<Rightarrow> string \<Rightarrow> bool" where
  "lib_passes include_libs exclude_libs include_suffixes exclude_suffixes g l =
     fst (lib_allowed include_libs exclude_libs (map lower include_suffixes)
            (map lower exclude_suffixes) (annotations g) l (lib_meta g))"

text \<open>The edges that pass the allow predicates, on the graph as \<open>apply_filters\<close> receives it.\<close>

definition edge_passes ::
  "pattern list \<Rightarrow> pattern list \<Rightarrow> pattern list \<Rightarrow> pattern list \<Rightarrow> string list \<Rightarrow> string list \<Rightarrow>
   graph \<Rightarrow> string \<times> string \<Rightarrow> bool" where
  "edge_passes include_targets exclude_targets include_libs exclude_libs
     include_suffixes exclude_suffixes g e =
     ((fst e \<in> set (target_nodes g) \<longrightarrow> target_allowed include_targets exclude_targets (fst e)) \<and>
      (snd e \<in> set (target_nodes g) \<longrightarrow> target_allowed include_targets exclude_targets (snd e)) \<and>
      (snd e \<in> set (lib_nodes g) \<longrightarrow>
         lib_passes include_libs exclude_libs include_suffixes exclude_suffixes g (snd e)))"

text \<open>The edges of a list that pass a target predicate and a library predicate.\<close>

definition passing ::
  "(string \<Rightarrow> bool) \<Rightarrow> (string \<Rightarrow> bool) \<Rightarrow> string list \<Rightarrow> string list \<Rightarrow>
   (string \<times> string) list \<Rightarrow> (string \<times> string) set" where
  "passing t_ok okp tn ln es = {e \<in> set es. (fst e \<in> set tn \<longrightarrow> t_ok (fst e)) \<and>
                     (snd e \<in> set tn \<longrightarrow> t_ok (snd e)) \<and> (snd e \<in> set ln \<longrightarrow> okp (snd e))}"

subsection \<open>Example graphs\<close>

text \<open>The library \<open>L\<close> is the source of an edge to the target \<open>T\<close>.\<close>

definition lib_source_graph :: graph where
  "lib_source_graph =
     add_edge ''L'' ''T'' (add_target ''T'' (add_lib ''L'' None False None Graph_init))"

text \<open>Scenario D: the target \<open>App\<close> links the library \<open>UnitTestKit\<close>.\<close>

definition scenario_D :: graph where
  "scenario_D =
     add_edge ''App'' ''UnitTestKit''
       (add_lib ''UnitTestKit'' None False (Some ''.framework'') (add_target ''App'' Graph_init))"

text \<open>
  The search of the pattern \<open>.*Test.*\<close>: it succeeds on the texts that hold \<open>Test\<close>.
\<close>

definition pattern_Test :: pattern where
  "pattern_Test text = str_in ''Test'' text"

text \<open>A package product registered with its repository URL and no \<open>ext\<close>.\<close>

definition url_lib_graph :: graph where
  "url_lib_graph =
     add_edge ''App'' ''Alamo''
       (add_lib ''Alamo'' (Some ''https://example.org/alamo.git'') False None
          (add_target ''App'' Graph_init))"

subsection \<open>Notions for the cycle detector\<close>

text \<open>The edge relation that an adjacency gives to \<open>strongconnect\<close>.\<close>

definition adj_edges :: "adjacency \<Rightarrow> (string \<times> string) set" where
  "adj_edges adj = {(v, w). w \<in> set (adj_get adj v)}"

text \<open>
  A strongly connected component of a relation: a non-empty set of nodes that reach one
  another, and that holds every node mutually reachable with one of its members.
\<close>

definition is_scc :: "('a \<times> 'a) set \<Rightarrow> 'a set \<Rightarrow> bool" where
  "is_scc E C \<longleftrightarrow>
     C \<noteq> {} \<and> (\<forall>x \<in> C. \<forall>y \<in> C. (x, y) \<in> E\<^sup>*) \<and>
     (\<forall>x \<in> C. \<forall>y. (x, y) \<in> E\<^sup>* \<and> (y, x) \<in> E\<^sup>* \<longrightarrow> y \<in> C)"

abbreviation idx :: "tarjan \<Rightarrow> string \<Rightarrow> nat" where
  "idx s x \<equiv> the (indices s x)"

abbreviation lowlink :: "tarjan \<Rightarrow> string \<Rightarrow> nat" where
  "lowlink s x \<equiv> the (low s x)"

text \<open>
  The invariant of the traversal. \<open>cs\<close> is the list of the nodes whose call of
  \<open>strongconnect\<close> is in progress, the innermost first: the state does not hold it.
\<close>

definition tinv_state :: "tarjan \<Rightarrow> bool" where
  "tinv_state s \<longleftrightarrow>
     dom (low s) = dom (indices s) \<and>
     (\<forall>x \<in> dom (indices s). idx s x < index s) \<and>
     onstack s = set (stack s) \<and>
     set (stack s) \<subseteq> dom (indices s) \<and>
     sorted_wrt (\<lambda>x y. idx s y < idx s x) (stack s)"

definition tinv_calls :: "string list \<Rightarrow> tarjan \<Rightarrow> bool" where
  "tinv_calls cs s \<longleftrightarrow>
     set cs \<subseteq> set (stack s) \<and> sorted_wrt (\<lambda>x y. idx s y < idx s x) cs"

definition tinv_done :: "(string \<times> string) set \<Rightarrow> string list \<Rightarrow> tarjan \<Rightarrow> bool" where
  "tinv_done E cs s \<longleftrightarrow>
     (\<forall>x \<in> dom (indices s) - set cs. \<forall>y. (x, y) \<in> E \<longrightarrow> y \<in> dom (indices s))"

definition tinv_reach :: "(string \<times> string) set \<Rightarrow> string list \<Rightarrow> tarjan \<Rightarrow> bool" where
  "tinv_reach E cs s \<longleftrightarrow>
     (\<forall>y \<in> set (stack s). \<forall>g \<in> set cs. idx s g \<le> idx s y \<longrightarrow> (g, y) \<in> E\<^sup>*) \<and>
     (\<forall>y \<in> set (stack s). \<exists>g \<in> set cs. idx s g \<le> idx s y \<and> (y, g) \<in> E\<^sup>*)"

definition tinv_sccs :: "(string \<times> string) set \<Rightarrow> tarjan \<Rightarrow> bool" where
  "tinv_sccs E s \<longleftrightarrow>
     (\<forall>c \<in> set (sccs s). is_scc E (set c) \<and> distinct c) \<and>
     dom (indices s) - set (stack s) = \<Union> (set ` set (sccs s))"

definition tinv :: "(string \<times> string) set \<Rightarrow> string list \<Rightarrow> tarjan \<Rightarrow> bool" where
  "tinv E cs s \<longleftrightarrow>
     tinv_state s \<and> tinv_calls cs s \<and> tinv_done E cs s \<and> tinv_reach E cs s \<and> tinv_sccs E s"

text \<open>
  What a call leaves untouched: the entries of the nodes visited before it, but for the
  \<open>low\<close> of the nodes of \<open>X\<close>.
\<close>

definition frame :: "string set \<Rightarrow> tarjan \<Rightarrow> tarjan \<Rightarrow> bool" where
  "frame X s s' \<longleftrightarrow>
     (\<forall>x \<in> dom (indices s). indices s' x = indices s x \<and> (x \<notin> X \<longrightarrow> low s' x = low s x))"

text \<open>
  The state \<open>s'\<close> that \<open>strongconnect(v)\<close> returns from \<open>s\<close>: either the component of
  \<open>v\<close> was popped and the stack is the one of \<open>s\<close>, or \<open>v\<close> and the nodes left above it
  stay on the stack, \<open>low[v]\<close> is the index of a node of the old stack that \<open>v\<close> reaches,
  and no edge from these nodes enters the old stack below that index.
\<close>

definition sc_post ::
  "(string \<times> string) set \<Rightarrow> string list \<Rightarrow> tarjan \<Rightarrow> string \<Rightarrow> tarjan \<Rightarrow> bool" where
  "sc_post E cs s v s' \<longleftrightarrow>
     tinv E cs s' \<and> frame {} s s' \<and> indices s' v = Some (index s) \<and>
     (\<exists>zs. stack s' = zs @ stack s \<and>
        (zs = [] \<and> low s' v = indices s' v \<or>
         zs \<noteq> [] \<and> last zs = v \<and>
         (\<exists>u \<in> set (stack s). low s' v = indices s' u \<and> (v, u) \<in> E\<^sup>*) \<and>
         (\<forall>z \<in> set zs. \<forall>y \<in> set (stack s). (z, y) \<in> E \<longrightarrow> lowlink s' v \<le> idx s' y)))"

text \<open>
  The loop over the successors of \<open>v\<close>, with the stack \<open>ys @ v # base\<close>: \<open>low[v]\<close> is at
  most \<open>indices[v]\<close>, it is the index of a node on the stack that \<open>v\<close> reaches, and it
  bounds the index of the end in \<open>base\<close> of every edge from \<open>ys\<close> and of every edge from
  \<open>v\<close> to a successor in \<open>P\<close>, the successors handled so far.
\<close>

definition visit_inv ::
  "(string \<times> string) set \<Rightarrow> string list \<Rightarrow> string \<Rightarrow> string list \<Rightarrow> string set \<Rightarrow> tarjan \<Rightarrow> bool" where
  "visit_inv E cs v base P s \<longleftrightarrow>
     tinv E (v # cs) s \<and>
     (\<exists>ys. stack s = ys @ v # base \<and>
        (\<forall>z \<in> set ys. \<forall>y \<in> set base. (z, y) \<in> E \<longrightarrow> lowlink s v \<le> idx s y)) \<and>
     (\<forall>y \<in> P \<inter> set base. lowlink s v \<le> idx s y) \<and>
     P \<subseteq> dom (indices s) \<and>
     lowlink s v \<le> idx s v \<and>
     (\<exists>u \<in> set (stack s). low s v = indices s u \<and> (v, u) \<in> E\<^sup>*)"

text \<open>
  The result of a call at depth \<open>d\<close> from the state \<open>s\<close>, in a graph with the nodes \<open>V\<close>:
  a state that satisfies \<open>Q\<close>, or \<open>RecursionError\<close> when \<open>d\<close> is less than the number of
  nodes not yet visited.
\<close>

definition returns ::
  "string set \<Rightarrow> nat \<Rightarrow> tarjan \<Rightarrow> (tarjan \<Rightarrow> bool) \<Rightarrow> error + tarjan \<Rightarrow> bool" where
  "returns V d s Q r =
     (case r of
        Inr s' \<Rightarrow> Q s'
      | Inl e \<Rightarrow> e = RecursionError \<and> d < card (V - dom (indices s)))"

text \<open>The state after lines 342 to 346 of \<open>strongconnect(v)\<close>.\<close>

definition entered :: "string \<Rightarrow> tarjan \<Rightarrow> tarjan" where
  "entered v s =
     s\<lparr>indices := (indices s)(v \<mapsto> index s),
       low := (low s)(v \<mapsto> index s),
       index := index s + 1,
       stack := v # stack s,
       onstack := insert v (onstack s)\<rparr>"

section \<open>Properties\<close>

subsection \<open>Registration\<close>

lemma set_set_add [simp]: "set (set_add x xs) = insert x (set xs)"
  by (auto simp: set_add_def)

lemma set_add_idem [simp]: "set_add x (set_add x xs) = set_add x xs"
  by (simp add: set_add_def)

lemma distinct_set_add [simp]: "distinct (set_add x xs) = distinct xs"
  by (simp add: set_add_def)

lemma add_lib_twice:
  "add_lib n sub sys e (add_lib n sub sys e g) = add_lib n sub sys e g"
  by (cases sub; cases e; cases "meta_is_system (meta_get (lib_meta g) n)")
     (auto simp: add_lib_def meta_get_def Let_def)

lemma lib_is_system_add_lib:
  "lib_is_system (add_lib n sub sys e g) n = (lib_is_system g n \<or> sys)"
  by (cases e; cases "meta_is_system (meta_get (lib_meta g) n)")
     (auto simp: add_lib_def meta_get_def Let_def lib_is_system_def empty_meta_def)

lemma lib_ext_add_lib_None: "lib_ext (add_lib n sub sys None g) n = lib_ext g n"
  by (cases "meta_is_system (meta_get (lib_meta g) n)")
     (auto simp: add_lib_def meta_get_def Let_def lib_ext_def)

text \<open>
  Claim C6. Registering the same target, library or edge a second time with the same
  arguments gives the graph of the first registration. Over repeated registrations of a
  library name, \<open>is_system\<close> is the disjunction of the old value and the new one, and a
  registration with an absent \<open>ext\<close> leaves the stored \<open>ext\<close> as it is.
\<close>

theorem registration_idempotent:
  "add_target n (add_target n g) = add_target n g \<and>
   add_lib n sub sys e (add_lib n sub sys e g) = add_lib n sub sys e g \<and>
   add_edge a b (add_edge a b g) = add_edge a b g \<and>
   lib_is_system (add_lib n sub' sys' e' (add_lib n sub sys e g)) n
     = (lib_is_system g n \<or> sys \<or> sys') \<and>
   lib_ext (add_lib n sub' sys' None (add_lib n sub sys e g)) n
     = lib_ext (add_lib n sub sys e g) n"
  by (simp add: add_lib_twice lib_is_system_add_lib lib_ext_add_lib_None add_target_def
      add_edge_def)

theorem registration_idempotent_witness:
  "add_target ''LibA'' (add_target ''LibA'' Graph_init) = add_target ''LibA'' Graph_init \<and>
   add_lib ''LibA'' None True (Some ''.framework'')
     (add_lib ''LibA'' None True (Some ''.framework'') Graph_init)
     = add_lib ''LibA'' None True (Some ''.framework'') Graph_init \<and>
   add_edge ''App'' ''LibA'' (add_edge ''App'' ''LibA'' Graph_init)
     = add_edge ''App'' ''LibA'' Graph_init \<and>
   lib_is_system
     (add_lib ''LibA'' None False None
        (add_lib ''LibA'' None True (Some ''.framework'') Graph_init)) ''LibA''
     = (lib_is_system Graph_init ''LibA'' \<or> True \<or> False) \<and>
   lib_ext
     (add_lib ''LibA'' None False None
        (add_lib ''LibA'' None True (Some ''.framework'') Graph_init)) ''LibA''
     = lib_ext (add_lib ''LibA'' None True (Some ''.framework'') Graph_init) ''LibA''"
  by (rule registration_idempotent)

text \<open>
  Claim C10. A later \<open>add_lib\<close> for a name with an absent or empty subtitle leaves the
  stored subtitle of that name unchanged; a later call with a non-empty subtitle stores
  that subtitle, whatever was stored before.
\<close>

theorem add_lib_subtitle_last_writer:
  "annotations (add_lib n None sys e g) n = annotations g n \<and>
   annotations (add_lib n (Some []) sys e g) n = annotations g n \<and>
   (s \<noteq> [] \<longrightarrow> annotations (add_lib n (Some s) sys e g) n = Some s)"
  by (simp add: add_lib_def Let_def)

theorem add_lib_subtitle_last_writer_witness:
  "annotations (add_lib ''P'' None False None
      (add_lib ''P'' (Some ''https://a'') False (Some ''spm'') Graph_init)) ''P''
     = Some ''https://a'' \<and>
   annotations (add_lib ''P'' (Some ''https://b'') False None
      (add_lib ''P'' (Some ''https://a'') False (Some ''spm'') Graph_init)) ''P''
     = Some ''https://b''"
  using add_lib_subtitle_last_writer [of "''P''" False None
      "add_lib ''P'' (Some ''https://a'') False (Some ''spm'') Graph_init" "''https://b''"]
  by (simp add: add_lib_def Let_def)

subsection \<open>The allow predicates\<close>

text \<open>
  Claim C4, as stated, for \<open>lib_allowed\<close>: the library \<open>Foo\<close> with suffix \<open>.a\<close> matches
  no exclude pattern and the include list is empty, yet it is not allowed when \<open>.a\<close> is an
  excluded suffix.
\<close>

theorem lib_allowed_patterns_only_counterexample:
  "\<not> (fst (lib_allowed [] [] [] [''.a''] Map.empty ''Foo''
          (Map.empty(''Foo'' \<mapsto> \<lparr>meta_ext = Some ''.a'', meta_is_system = Some False\<rparr>)))
      = (\<not> match_any [] ''Foo'' \<and> ([] = ([]::pattern list) \<or> match_any [] ''Foo'')))"
  by (simp add: lib_allowed_def match_any_def ext_key_of_def meta_get_def has_url_def
      lower_def lower_char_def)

text \<open>
  Claim C4, amended. A name that matches an exclude pattern is disallowed whatever the
  include patterns are. Otherwise a target is allowed iff the include list is empty or
  the name matches an include pattern; a library is allowed iff that holds and its
  suffix key passes the suffix tests (it is in the include suffixes when there are any,
  and not in the exclude suffixes).
\<close>

theorem allow_predicates_exclude_wins:
  "target_allowed inc exc t = (\<not> match_any exc t \<and> (inc = [] \<or> match_any inc t)) \<and>
   fst (lib_allowed inc exc inc_suf exc_suf ann l lm) =
     (\<not> match_any exc l \<and> (inc = [] \<or> match_any inc l) \<and>
      (inc_suf = [] \<or> fst (ext_key_of ann l lm) \<in> set inc_suf) \<and>
      fst (ext_key_of ann l lm) \<notin> set exc_suf)"
  by (auto simp: target_allowed_def lib_allowed_def match_any_def split: prod.splits)

theorem allow_predicates_exclude_wins_witness:
  "\<not> target_allowed [str_in ''App''] [str_in ''Test''] ''AppTests'' \<and>
   target_allowed [str_in ''App''] [str_in ''Test''] ''AppCore'' \<and>
   \<not> fst (lib_allowed [] [] [] [''.a''] Map.empty ''Foo''
          (Map.empty(''Foo'' \<mapsto> \<lparr>meta_ext = Some ''.a'', meta_is_system = Some False\<rparr>)))"
  using allow_predicates_exclude_wins [where inc = "[str_in ''App'']"
      and exc = "[str_in ''Test'']" and t = "''AppTests''"]
    allow_predicates_exclude_wins [where inc = "[str_in ''App'']"
      and exc = "[str_in ''Test'']" and t = "''AppCore''"]
    allow_predicates_exclude_wins [where inc = "[]" and exc = "[]" and inc_suf = "[]"
      and exc_suf = "[''.a'']" and ann = Map.empty and l = "''Foo''"
      and lm = "Map.empty(''Foo'' \<mapsto> \<lparr>meta_ext = Some ''.a'', meta_is_system = Some False\<rparr>)"]
  by (simp add: match_any_def ext_key_of_def meta_get_def has_url_def lower_def lower_char_def)

subsection \<open>The filter stage\<close>


lemma lower_spm [simp]: "lower ''spm'' = ''spm''"
  by (simp add: lower_def lower_char_def)

lemma spm_inferred_refl [simp]: "spm_inferred ann lm lm"
  by (simp add: spm_inferred_def)

lemma ext_key_of_inferred:
  assumes "spm_inferred ann lm0 lm"
  shows "fst (ext_key_of ann b lm) = fst (ext_key_of ann b lm0)"
    and "spm_inferred ann lm0 (snd (ext_key_of ann b lm))"
proof -
  from assms have c: "lm b = lm0 b \<or>
          (has_url ann b \<and> meta_ext (meta_get lm0 b) = None \<and>
           lm b = Some ((meta_get lm0 b)\<lparr>meta_ext := Some ''spm''\<rparr>))"
    by (simp add: spm_inferred_def)
  then show "fst (ext_key_of ann b lm) = fst (ext_key_of ann b lm0)"
    by (auto simp: ext_key_of_def meta_get_def Let_def)
  show "spm_inferred ann lm0 (snd (ext_key_of ann b lm))"
    unfolding spm_inferred_def
  proof
    fix l
    from assms have cl: "lm l = lm0 l \<or>
          (has_url ann l \<and> meta_ext (meta_get lm0 l) = None \<and>
           lm l = Some ((meta_get lm0 l)\<lparr>meta_ext := Some ''spm''\<rparr>))"
      by (simp add: spm_inferred_def)
    show "snd (ext_key_of ann b lm) l = lm0 l \<or>
         has_url ann l \<and> meta_ext (meta_get lm0 l) = None \<and>
         snd (ext_key_of ann b lm) l = Some (meta_get lm0 l\<lparr>meta_ext := Some ''spm''\<rparr>)"
      using cl c by (auto simp: ext_key_of_def meta_get_def Let_def)
  qed
qed

lemma lib_allowed_inferred:
  assumes "spm_inferred ann lm0 lm"
  shows "fst (lib_allowed inc exc isf esf ann b lm) = fst (lib_allowed inc exc isf esf ann b lm0)"
    and "spm_inferred ann lm0 (snd (lib_allowed inc exc isf esf ann b lm))"
  using ext_key_of_inferred [OF assms, of b] assms
  by (auto simp: lib_allowed_def split: prod.splits)



lemma passing_Nil [simp]: "passing t_ok okp tn ln [] = {}"
  by (simp add: passing_def)

lemma passing_Cons:
  "passing t_ok okp tn ln ((a, b) # es) =
     (if (a \<in> set tn \<longrightarrow> t_ok a) \<and> (b \<in> set tn \<longrightarrow> t_ok b) \<and> (b \<in> set ln \<longrightarrow> okp b)
      then insert (a, b) (passing t_ok okp tn ln es) else passing t_ok okp tn ln es)"
  by (auto simp: passing_def)

lemma prune_edges_generic:
  assumes step: "\<And>b lm. R lm \<Longrightarrow> fst (l_ok b lm) = okp b \<and> R (snd (l_ok b lm))"
    and q_new: "\<And>b lm. R lm \<Longrightarrow> fst (l_ok b lm) \<Longrightarrow> Q b (snd (l_ok b lm))"
    and q_keep: "\<And>b b' lm. R lm \<Longrightarrow> Q b lm \<Longrightarrow> Q b (snd (l_ok b' lm))"
  shows "R lm \<Longrightarrow> \<forall>e \<in> set ne. snd e \<in> set ln \<longrightarrow> Q (snd e) lm \<Longrightarrow>
     set (fst (prune_edges t_ok l_ok tn ln es (ne, lm))) = set ne \<union> passing t_ok okp tn ln es \<and>
     R (snd (prune_edges t_ok l_ok tn ln es (ne, lm))) \<and>
     (\<forall>e \<in> set (fst (prune_edges t_ok l_ok tn ln es (ne, lm))).
        snd e \<in> set ln \<longrightarrow> Q (snd e) (snd (prune_edges t_ok l_ok tn ln es (ne, lm))))"
proof (induction es arbitrary: ne lm)
  case Nil
  then show ?case by simp
next
  case (Cons e es)
  obtain a b where e: "e = (a, b)" by (cases e)
  show ?case
  proof (cases "(a \<in> set tn \<and> \<not> t_ok a) \<or> (b \<in> set tn \<and> \<not> t_ok b)")
    case True
    then have eq: "prune_edges t_ok l_ok tn ln (e # es) (ne, lm) = prune_edges t_ok l_ok tn ln es (ne, lm)"
      by (auto simp: e)
    have p: "passing t_ok okp tn ln (e # es) = passing t_ok okp tn ln es"
      using True by (auto simp: e passing_Cons)
    show ?thesis unfolding eq p by (rule Cons.IH [OF Cons.prems])
  next
    case False
    note tpass = False
    show ?thesis
    proof (cases "b \<in> set ln")
      case False
      then have eq: "prune_edges t_ok l_ok tn ln (e # es) (ne, lm) =
          prune_edges t_ok l_ok tn ln es (set_add (a, b) ne, lm)"
        using tpass by (auto simp: e)
      have p: "set ne \<union> passing t_ok okp tn ln (e # es) = set (set_add (a, b) ne) \<union> passing t_ok okp tn ln es"
        using tpass False by (auto simp: e passing_Cons)
      have q: "\<forall>e \<in> set (set_add (a, b) ne). snd e \<in> set ln \<longrightarrow> Q (snd e) lm"
        using Cons.prems(2) False by simp
      show ?thesis unfolding eq p by (rule Cons.IH [OF Cons.prems(1) q])
    next
      case True
      obtain ok lm' where l: "l_ok b lm = (ok, lm')" by (cases "l_ok b lm")
      from step [OF Cons.prems(1), of b] l have ok: "ok = okp b" and R': "R lm'" by auto
      have keep: "\<forall>e \<in> set ne. snd e \<in> set ln \<longrightarrow> Q (snd e) lm'"
      proof (intro ballI impI)
        fix x assume "x \<in> set ne" "snd x \<in> set ln"
        then have "Q (snd x) lm" using Cons.prems(2) by blast
        from q_keep [OF Cons.prems(1) this, of b] l show "Q (snd x) lm'" by simp
      qed
      show ?thesis
      proof (cases ok)
        case False
        then have eq: "prune_edges t_ok l_ok tn ln (e # es) (ne, lm) =
          prune_edges t_ok l_ok tn ln es (ne, lm')"
          using tpass True l by (auto simp: e)
        have p: "passing t_ok okp tn ln (e # es) = passing t_ok okp tn ln es"
          using True False ok by (simp add: e passing_Cons)
        show ?thesis unfolding eq p by (rule Cons.IH [OF R' keep])
      next
        case yes: True
        then have eq: "prune_edges t_ok l_ok tn ln (e # es) (ne, lm) =
          prune_edges t_ok l_ok tn ln es (set_add (a, b) ne, lm')"
          using tpass True l by (auto simp: e)
        have p: "set ne \<union> passing t_ok okp tn ln (e # es) = set (set_add (a, b) ne) \<union> passing t_ok okp tn ln es"
          using tpass True yes ok by (auto simp: e passing_Cons)
        have "Q b lm'" using q_new [OF Cons.prems(1), of b] l yes by simp
        then have q: "\<forall>e \<in> set (set_add (a, b) ne). snd e \<in> set ln \<longrightarrow> Q (snd e) lm'"
          using keep by simp
        show ?thesis unfolding eq p by (rule Cons.IH [OF R' q])
      qed
    qed
  qed
qed


lemma kept_nodes_sets:
  "set (fst (kept_nodes tn ln es (kt, kl))) =
     set kt \<union> {x \<in> set tn. \<exists>e \<in> set es. x = fst e \<or> x = snd e} \<and>
   set (snd (kept_nodes tn ln es (kt, kl))) =
     set kl \<union> {x \<in> set ln. \<exists>e \<in> set es. x = snd e}"
proof (induction es arbitrary: kt kl)
  case Nil
  then show ?case by simp
next
  case (Cons e es)
  obtain a b where e: "e = (a, b)" by (cases e)
  have eq: "kept_nodes tn ln (e # es) (kt, kl) =
     kept_nodes tn ln es
       (if b \<in> set tn then set_add b (if a \<in> set tn then set_add a kt else kt)
        else (if a \<in> set tn then set_add a kt else kt),
        if b \<in> set ln then set_add b kl else kl)"
    by (simp add: e Let_def)
  show ?case unfolding eq
  proof (intro conjI)
    show "set (fst (kept_nodes tn ln es
       (if b \<in> set tn then set_add b (if a \<in> set tn then set_add a kt else kt)
        else (if a \<in> set tn then set_add a kt else kt),
        if b \<in> set ln then set_add b kl else kl))) =
      set kt \<union> {x \<in> set tn. \<exists>e \<in> set (e # es). x = fst e \<or> x = snd e}"
      by (subst Cons.IH [THEN conjunct1]) (auto simp: e)
    show "set (snd (kept_nodes tn ln es
       (if b \<in> set tn then set_add b (if a \<in> set tn then set_add a kt else kt)
        else (if a \<in> set tn then set_add a kt else kt),
        if b \<in> set ln then set_add b kl else kl))) =
      set kl \<union> {x \<in> set ln. \<exists>e \<in> set (e # es). x = snd e}"
      by (subst Cons.IH [THEN conjunct2]) (auto simp: e)
  qed
qed

lemma keep_isolated_set:
  "set (keep_isolated t_ok ts kt) = set kt \<union> {t \<in> set ts. t_ok t}"
  by (induction ts arbitrary: kt) auto


lemma lib_allowed_stores:
  "fst (lib_allowed inc exc isf esf ann b lm) \<Longrightarrow> has_url ann b \<Longrightarrow>
   meta_ext (meta_get (snd (lib_allowed inc exc isf esf ann b lm)) b) \<noteq> None"
  by (auto simp: lib_allowed_def ext_key_of_def meta_get_def Let_def split: prod.splits if_splits)

lemma lib_allowed_keeps:
  "meta_ext (meta_get lm b) \<noteq> None \<Longrightarrow>
   meta_ext (meta_get (snd (lib_allowed inc exc isf esf ann b' lm)) b) \<noteq> None"
  by (auto simp: lib_allowed_def ext_key_of_def meta_get_def Let_def split: prod.splits if_splits)

lemma prune_edges_lib_allowed:
  fixes inc exc isf esf ann lm0 t_ok tn ln edgs
  defines "l_ok \<equiv> lib_allowed inc exc isf esf ann"
  defines "res \<equiv> prune_edges t_ok l_ok tn ln edgs ([], lm0)"
  shows "set (fst res) = passing t_ok (\<lambda>b. fst (l_ok b lm0)) tn ln edgs"
    and "spm_inferred ann lm0 (snd res)"
    and "\<forall>e \<in> set (fst res). snd e \<in> set ln \<longrightarrow>
           (has_url ann (snd e) \<longrightarrow> meta_ext (meta_get (snd res) (snd e)) \<noteq> None)"
proof -
  have "set (fst res) = set [] \<union> passing t_ok (\<lambda>b. fst (l_ok b lm0)) tn ln edgs \<and>
     spm_inferred ann lm0 (snd res) \<and>
     (\<forall>e \<in> set (fst res). snd e \<in> set ln \<longrightarrow>
           (has_url ann (snd e) \<longrightarrow> meta_ext (meta_get (snd res) (snd e)) \<noteq> None))"
    unfolding res_def
  proof (rule prune_edges_generic [where R = "spm_inferred ann lm0"
        and Q = "\<lambda>b lm. has_url ann b \<longrightarrow> meta_ext (meta_get lm b) \<noteq> None"])
    show "\<And>b lm. spm_inferred ann lm0 lm \<Longrightarrow>
       fst (l_ok b lm) = fst (l_ok b lm0) \<and> spm_inferred ann lm0 (snd (l_ok b lm))"
      unfolding l_ok_def using lib_allowed_inferred by blast
    show "\<And>b lm. spm_inferred ann lm0 lm \<Longrightarrow> fst (l_ok b lm) \<Longrightarrow>
       has_url ann b \<longrightarrow> meta_ext (meta_get (snd (l_ok b lm)) b) \<noteq> None"
      unfolding l_ok_def using lib_allowed_stores by blast
    show "\<And>b b' lm. spm_inferred ann lm0 lm \<Longrightarrow>
       has_url ann b \<longrightarrow> meta_ext (meta_get lm b) \<noteq> None \<Longrightarrow>
       has_url ann b \<longrightarrow> meta_ext (meta_get (snd (l_ok b' lm)) b) \<noteq> None"
      unfolding l_ok_def using lib_allowed_keeps by blast
    show "spm_inferred ann lm0 lm0" by simp
    show "\<forall>e\<in>set []. snd e \<in> set ln \<longrightarrow> has_url ann (snd e) \<longrightarrow> meta_ext (meta_get lm0 (snd e)) \<noteq> None"
      by simp
  qed
  then show "set (fst res) = passing t_ok (\<lambda>b. fst (l_ok b lm0)) tn ln edgs"
    and "spm_inferred ann lm0 (snd res)"
    and "\<forall>e \<in> set (fst res). snd e \<in> set ln \<longrightarrow>
           (has_url ann (snd e) \<longrightarrow> meta_ext (meta_get (snd res) (snd e)) \<noteq> None)"
    by simp_all
qed

lemma apply_filters_unfold:
  "apply_filters it et il el isf esf keep g =
     (let t_ok = target_allowed it et;
          res = prune_edges t_ok (lib_allowed il el (map lower isf) (map lower esf) (annotations g))
                  (target_nodes g) (lib_nodes g) (edges g) ([], lib_meta g);
          kn = kept_nodes (target_nodes g) (lib_nodes g) (fst res) ([], [])
      in g\<lparr>edges := fst res,
           target_nodes := (if keep then keep_isolated t_ok (target_nodes g) (fst kn) else fst kn),
           lib_nodes := snd kn,
           lib_meta := snd res |` set (snd kn),
           annotations := annotations g |` set (snd kn)\<rparr>)"
  by (simp add: apply_filters_def Let_def split: prod.splits)

lemma passing_edge_passes:
  "passing (target_allowed it et)
     (\<lambda>b. fst (lib_allowed il el (map lower isf) (map lower esf) (annotations g) b (lib_meta g)))
     (target_nodes g) (lib_nodes g) (edges g)
   = {e \<in> set (edges g). edge_passes it et il el isf esf g e}"
  by (simp add: passing_def edge_passes_def lib_passes_def)

lemma apply_filters_edges:
  "set (edges (apply_filters it et il el isf esf keep g)) =
     {e \<in> set (edges g). edge_passes it et il el isf esf g e}"
  by (simp add: apply_filters_unfold Let_def prune_edges_lib_allowed(1) passing_edge_passes)

lemma apply_filters_lib_nodes:
  "set (lib_nodes (apply_filters it et il el isf esf keep g)) =
     {x \<in> set (lib_nodes g).
        \<exists>e \<in> set (edges (apply_filters it et il el isf esf keep g)). x = snd e}"
  by (simp add: apply_filters_unfold Let_def kept_nodes_sets)

lemma apply_filters_target_nodes:
  "set (target_nodes (apply_filters it et il el isf esf keep g)) =
     {x \<in> set (target_nodes g).
        \<exists>e \<in> set (edges (apply_filters it et il el isf esf keep g)). x = fst e \<or> x = snd e}
     \<union> (if keep then {t \<in> set (target_nodes g). target_allowed it et t} else {})"
  by (simp add: apply_filters_unfold Let_def kept_nodes_sets keep_isolated_set)

lemma apply_filters_spm:
  assumes "l \<in> set (lib_nodes (apply_filters it et il el isf esf keep g))"
    and "has_url (annotations g) l" and "lib_ext g l = None"
  shows "lib_ext (apply_filters it et il el isf esf keep g) l = Some ''spm''"
proof -
  define res where "res = prune_edges (target_allowed it et)
     (lib_allowed il el (map lower isf) (map lower esf) (annotations g))
     (target_nodes g) (lib_nodes g) (edges g) ([], lib_meta g)"
  define kn where "kn = kept_nodes (target_nodes g) (lib_nodes g) (fst res) ([], [])"
  have g': "lib_nodes (apply_filters it et il el isf esf keep g) = snd kn"
    "lib_meta (apply_filters it et il el isf esf keep g) = snd res |` set (snd kn)"
    by (simp_all add: apply_filters_unfold Let_def res_def kn_def)
  from assms(1) have lk: "l \<in> set (snd kn)" by (simp add: g')
  then obtain e where e: "e \<in> set (fst res)" "l = snd e" "l \<in> set (lib_nodes g)"
    unfolding kn_def using kept_nodes_sets [of "target_nodes g" "lib_nodes g" "fst res" "[]" "[]"]
    by auto
  have "meta_ext (meta_get (snd res) l) \<noteq> None"
    using prune_edges_lib_allowed(3) [of "target_allowed it et" il el "map lower isf"
        "map lower esf" "annotations g" "target_nodes g" "lib_nodes g" "edges g" "lib_meta g",
        folded res_def]
      e assms(2) by blast
  moreover have "spm_inferred (annotations g) (lib_meta g) (snd res)"
    unfolding res_def by (rule prune_edges_lib_allowed(2))
  then have "snd res l = lib_meta g l \<or>
      snd res l = Some ((meta_get (lib_meta g) l)\<lparr>meta_ext := Some ''spm''\<rparr>)"
    by (auto simp: spm_inferred_def)
  ultimately have "meta_ext (meta_get (snd res) l) = Some ''spm''"
    using assms(3) by (auto simp: lib_ext_def meta_get_def)
  then show ?thesis using lk by (simp add: lib_ext_def g' meta_get_def restrict_map_def)
qed


lemmas graph_build_defs = add_edge_def add_target_def add_lib_def Graph_init_def set_add_def
  meta_get_def empty_meta_def Let_def

lemmas filter_eval_defs = apply_filters_def target_allowed_def lib_allowed_def ext_key_of_def
  has_url_def match_any_def lower_def lower_char_def

text \<open>
  Claim C2, as stated. In \<open>lib_source_graph\<close> every endpoint of every edge is a registered
  node, the source of the edge being a library. With no filter at all the edge survives
  \<open>apply_filters\<close>, and its source is in neither surviving node set.
\<close>

theorem filter_dangling_counterexample:
  "fst ` set (edges lib_source_graph) \<union> snd ` set (edges lib_source_graph)
     \<subseteq> set (target_nodes lib_source_graph) \<union> set (lib_nodes lib_source_graph) \<and>
   (''L'', ''T'') \<in> set (edges (apply_filters [] [] [] [] [] [] True lib_source_graph)) \<and>
   ''L'' \<notin> set (target_nodes (apply_filters [] [] [] [] [] [] True lib_source_graph))
          \<union> set (lib_nodes (apply_filters [] [] [] [] [] [] True lib_source_graph))"
  by (simp add: lib_source_graph_def graph_build_defs filter_eval_defs)

text \<open>
  Claim C2, amended. When the source of every edge is a registered target and its
  destination a registered target or library, then after \<open>apply_filters\<close> the edge set is
  the set of the original edges that pass the allow predicates, the surviving nodes are
  the endpoints of the surviving edges (with the allowed targets when
  \<open>keep_isolated_included_targets\<close> is set), and both endpoints of every surviving edge
  are surviving nodes.
\<close>

theorem filter_soundness:
  assumes "\<forall>e \<in> set (edges g). fst e \<in> set (target_nodes g) \<and>
             snd e \<in> set (target_nodes g) \<union> set (lib_nodes g)"
  shows "set (edges (apply_filters it et il el isf esf keep g)) =
           {e \<in> set (edges g). edge_passes it et il el isf esf g e} \<and>
         set (target_nodes (apply_filters it et il el isf esf keep g)) \<union>
         set (lib_nodes (apply_filters it et il el isf esf keep g)) =
           fst ` set (edges (apply_filters it et il el isf esf keep g)) \<union>
           snd ` set (edges (apply_filters it et il el isf esf keep g)) \<union>
           (if keep then {t \<in> set (target_nodes g). target_allowed it et t} else {}) \<and>
         (\<forall>e \<in> set (edges (apply_filters it et il el isf esf keep g)).
            fst e \<in> set (target_nodes (apply_filters it et il el isf esf keep g)) \<and>
            snd e \<in> set (target_nodes (apply_filters it et il el isf esf keep g)) \<union>
                    set (lib_nodes (apply_filters it et il el isf esf keep g)))"
proof -
  define g' where "g' = apply_filters it et il el isf esf keep g"
  have E: "set (edges g') = {e \<in> set (edges g). edge_passes it et il el isf esf g e}"
    unfolding g'_def by (rule apply_filters_edges)
  have T: "set (target_nodes g') =
     {x \<in> set (target_nodes g). \<exists>e \<in> set (edges g'). x = fst e \<or> x = snd e}
     \<union> (if keep then {t \<in> set (target_nodes g). target_allowed it et t} else {})"
    unfolding g'_def by (rule apply_filters_target_nodes)
  have L: "set (lib_nodes g') = {x \<in> set (lib_nodes g). \<exists>e \<in> set (edges g'). x = snd e}"
    unfolding g'_def by (rule apply_filters_lib_nodes)
  have sub: "\<forall>e \<in> set (edges g'). fst e \<in> set (target_nodes g) \<and>
             snd e \<in> set (target_nodes g) \<union> set (lib_nodes g)"
    using assms E by blast
  have D: "\<forall>e \<in> set (edges g'). fst e \<in> set (target_nodes g') \<and>
            snd e \<in> set (target_nodes g') \<union> set (lib_nodes g')"
  proof
    fix e assume e: "e \<in> set (edges g')"
    with sub have s: "fst e \<in> set (target_nodes g)"
      "snd e \<in> set (target_nodes g) \<union> set (lib_nodes g)" by auto
    from s(1) e have "fst e \<in> set (target_nodes g')" unfolding T by blast
    moreover from s(2) e have "snd e \<in> set (target_nodes g') \<union> set (lib_nodes g')"
      unfolding T L by blast
    ultimately show "fst e \<in> set (target_nodes g') \<and>
            snd e \<in> set (target_nodes g') \<union> set (lib_nodes g')" ..
  qed
  have N: "set (target_nodes g') \<union> set (lib_nodes g') =
           fst ` set (edges g') \<union> snd ` set (edges g') \<union>
           (if keep then {t \<in> set (target_nodes g). target_allowed it et t} else {})"
  proof
    show "set (target_nodes g') \<union> set (lib_nodes g') \<subseteq>
       fst ` set (edges g') \<union> snd ` set (edges g') \<union>
           (if keep then {t \<in> set (target_nodes g). target_allowed it et t} else {})"
      unfolding T L by auto
    have "fst ` set (edges g') \<union> snd ` set (edges g') \<subseteq> set (target_nodes g') \<union> set (lib_nodes g')"
      using D by auto
    moreover have "(if keep then {t \<in> set (target_nodes g). target_allowed it et t} else {})
        \<subseteq> set (target_nodes g')" unfolding T by auto
    ultimately show "fst ` set (edges g') \<union> snd ` set (edges g') \<union>
           (if keep then {t \<in> set (target_nodes g). target_allowed it et t} else {})
        \<subseteq> set (target_nodes g') \<union> set (lib_nodes g')" by blast
  qed
  show ?thesis using E N D unfolding g'_def by blast
qed


lemma scenario_D_filtered:
  "lib_nodes (apply_filters [] [] [] [pattern_Test] [] [] True scenario_D) = [] \<and>
   target_nodes (apply_filters [] [] [] [pattern_Test] [] [] True scenario_D) = [''App''] \<and>
   edges (apply_filters [] [] [] [pattern_Test] [] [] True scenario_D) = []"
  by (simp add: scenario_D_def pattern_Test_def graph_build_defs filter_eval_defs)

theorem filter_soundness_witness:
  "set (edges (apply_filters [] [] [] [pattern_Test] [] [] True scenario_D)) =
     {e \<in> set (edges scenario_D). edge_passes [] [] [] [pattern_Test] [] [] scenario_D e} \<and>
   edges (apply_filters [] [] [] [pattern_Test] [] [] True scenario_D) = [] \<and>
   set (target_nodes (apply_filters [] [] [] [pattern_Test] [] [] True scenario_D)) \<union>
   set (lib_nodes (apply_filters [] [] [] [pattern_Test] [] [] True scenario_D)) =
     fst ` set (edges (apply_filters [] [] [] [pattern_Test] [] [] True scenario_D)) \<union>
     snd ` set (edges (apply_filters [] [] [] [pattern_Test] [] [] True scenario_D)) \<union>
     (if True then {t \<in> set (target_nodes scenario_D). target_allowed [] [] t} else {})"
proof -
  have h: "\<forall>e \<in> set (edges scenario_D). fst e \<in> set (target_nodes scenario_D) \<and>
             snd e \<in> set (target_nodes scenario_D) \<union> set (lib_nodes scenario_D)"
    by (simp add: scenario_D_def graph_build_defs)
  from filter_soundness [OF h, of "[]" "[]" "[]" "[pattern_Test]" "[]" "[]" True]
    scenario_D_filtered
  show ?thesis by blast
qed

text \<open>
  Claim C3. With \<open>keep_isolated_included_targets\<close> set, every target that satisfies
  the target allow predicate is in the filtered target set, with or without a surviving
  edge. With or without the option, every library of the filtered graph is the
  destination of a surviving edge: a library with no surviving edge is dropped. In
  scenario D the filtered graph has the isolated target \<open>App\<close> and no library.
\<close>

theorem isolated_targets_kept:
  "(\<forall>t \<in> set (target_nodes g). target_allowed it et t \<longrightarrow>
      t \<in> set (target_nodes (apply_filters it et il el isf esf True g))) \<and>
   (\<forall>l \<in> set (lib_nodes (apply_filters it et il el isf esf keep g)).
      \<exists>a. (a, l) \<in> set (edges (apply_filters it et il el isf esf keep g))) \<and>
   lib_nodes (apply_filters [] [] [] [pattern_Test] [] [] True scenario_D) = [] \<and>
   target_nodes (apply_filters [] [] [] [pattern_Test] [] [] True scenario_D) = [''App''] \<and>
   edges (apply_filters [] [] [] [pattern_Test] [] [] True scenario_D) = []"
proof (intro conjI)
  show "\<forall>t \<in> set (target_nodes g). target_allowed it et t \<longrightarrow>
      t \<in> set (target_nodes (apply_filters it et il el isf esf True g))"
    by (simp add: apply_filters_target_nodes)
  show "\<forall>l \<in> set (lib_nodes (apply_filters it et il el isf esf keep g)).
      \<exists>a. (a, l) \<in> set (edges (apply_filters it et il el isf esf keep g))"
  proof
    fix l assume "l \<in> set (lib_nodes (apply_filters it et il el isf esf keep g))"
    then obtain e where "e \<in> set (edges (apply_filters it et il el isf esf keep g))" "l = snd e"
      unfolding apply_filters_lib_nodes [of it et il el isf esf keep g] by blast
    then have "(fst e, l) \<in> set (edges (apply_filters it et il el isf esf keep g))" by simp
    then show "\<exists>a. (a, l) \<in> set (edges (apply_filters it et il el isf esf keep g))" ..
  qed
qed (simp_all add: scenario_D_filtered)

theorem isolated_targets_kept_witness:
  "''App'' \<in> set (target_nodes scenario_D) \<and> target_allowed [] [] ''App'' \<and>
   ''App'' \<in> set (target_nodes (apply_filters [] [] [] [pattern_Test] [] [] True scenario_D)) \<and>
   ''UnitTestKit'' \<notin> set (lib_nodes (apply_filters [] [] [] [pattern_Test] [] [] True scenario_D))"
proof -
  have h: "''App'' \<in> set (target_nodes scenario_D)" "target_allowed [] [] ''App''"
    by (simp_all add: scenario_D_def graph_build_defs target_allowed_def)
  from isolated_targets_kept [of scenario_D "[]" "[]" "[]" "[pattern_Test]" "[]" "[]" True] h
  have "''App'' \<in> set (target_nodes (apply_filters [] [] [] [pattern_Test] [] [] True scenario_D))"
    and "lib_nodes (apply_filters [] [] [] [pattern_Test] [] [] True scenario_D) = []"
    by blast+
  with h show ?thesis by simp
qed

text \<open>
  Claim C7. For a library whose stored subtitle holds \<open>http\<close> and whose \<open>ext\<close> is unset,
  the suffix key that \<open>lib_allowed\<close> tests is \<open>spm\<close>; the evaluation stores \<open>spm\<close> as the
  \<open>ext\<close> of the library; a second evaluation finds it there, tests \<open>spm\<close> again and
  leaves the metadata as it is. The suffix tests are reached when the name tests pass.
  In the graph that \<open>apply_filters\<close> returns, such a library that survives has \<open>ext\<close>
  \<open>spm\<close>.
\<close>

theorem url_library_is_spm:
  assumes "has_url ann l" and "meta_ext (meta_get lm l) = None"
  shows "fst (ext_key_of ann l lm) = ''spm'' \<and>
         meta_ext (meta_get (snd (ext_key_of ann l lm)) l) = Some ''spm'' \<and>
         ext_key_of ann l (snd (ext_key_of ann l lm)) = (''spm'', snd (ext_key_of ann l lm)) \<and>
         (\<not> match_any exc l \<and> (inc = [] \<or> match_any inc l) \<longrightarrow>
            lib_allowed inc exc inc_suf exc_suf ann l lm =
              ((inc_suf = [] \<or> ''spm'' \<in> set inc_suf) \<and> ''spm'' \<notin> set exc_suf,
               snd (ext_key_of ann l lm)) \<and>
            lib_allowed inc exc inc_suf exc_suf ann l (snd (ext_key_of ann l lm)) =
              lib_allowed inc exc inc_suf exc_suf ann l lm) \<and>
         (ann = annotations g \<and> lm = lib_meta g \<and>
          l \<in> set (lib_nodes (apply_filters it et il el isf esf keep g)) \<longrightarrow>
            lib_ext (apply_filters it et il el isf esf keep g) l = Some ''spm'')"
proof -
  have k: "ext_key_of ann l lm = (''spm'', lm(l \<mapsto> (meta_get lm l)\<lparr>meta_ext := Some ''spm''\<rparr>))"
    using assms by (simp add: ext_key_of_def Let_def)
  have k2: "ext_key_of ann l (lm(l \<mapsto> (meta_get lm l)\<lparr>meta_ext := Some ''spm''\<rparr>)) =
      (''spm'', lm(l \<mapsto> (meta_get lm l)\<lparr>meta_ext := Some ''spm''\<rparr>))"
    using assms by (simp add: ext_key_of_def Let_def meta_get_def)
  have a: "fst (ext_key_of ann l lm) = ''spm''" by (simp add: k)
  have b: "meta_ext (meta_get (snd (ext_key_of ann l lm)) l) = Some ''spm''"
    by (simp add: k meta_get_def)
  have c: "ext_key_of ann l (snd (ext_key_of ann l lm)) = (''spm'', snd (ext_key_of ann l lm))"
    by (simp add: k k2)
  have d: "\<not> match_any exc l \<and> (inc = [] \<or> match_any inc l) \<longrightarrow>
            lib_allowed inc exc inc_suf exc_suf ann l lm =
              ((inc_suf = [] \<or> ''spm'' \<in> set inc_suf) \<and> ''spm'' \<notin> set exc_suf,
               snd (ext_key_of ann l lm)) \<and>
            lib_allowed inc exc inc_suf exc_suf ann l (snd (ext_key_of ann l lm)) =
              lib_allowed inc exc inc_suf exc_suf ann l lm"
    by (auto simp: lib_allowed_def k k2)
  have e: "ann = annotations g \<and> lm = lib_meta g \<and>
          l \<in> set (lib_nodes (apply_filters it et il el isf esf keep g)) \<longrightarrow>
            lib_ext (apply_filters it et il el isf esf keep g) l = Some ''spm''"
    using assms apply_filters_spm [of l it et il el isf esf keep g] by (auto simp: lib_ext_def)
  from a b c d e show ?thesis by blast
qed

theorem url_library_is_spm_witness:
  "has_url (annotations url_lib_graph) ''Alamo'' \<and>
   meta_ext (meta_get (lib_meta url_lib_graph) ''Alamo'') = None \<and>
   \<not> fst (lib_allowed [] [] [] [''spm''] (annotations url_lib_graph) ''Alamo''
          (lib_meta url_lib_graph)) \<and>
   ''Alamo'' \<in> set (lib_nodes (apply_filters [] [] [] [] [] [] True url_lib_graph)) \<and>
   lib_ext (apply_filters [] [] [] [] [] [] True url_lib_graph) ''Alamo'' = Some ''spm''"
proof -
  have h: "has_url (annotations url_lib_graph) ''Alamo''"
    "meta_ext (meta_get (lib_meta url_lib_graph) ''Alamo'') = None"
    by (simp_all add: url_lib_graph_def graph_build_defs has_url_def lower_def lower_char_def)
  have m: "\<not> match_any [] ''Alamo''" by (simp add: match_any_def)
  have n: "''Alamo'' \<in> set (lib_nodes (apply_filters [] [] [] [] [] [] True url_lib_graph))"
    by (simp add: url_lib_graph_def graph_build_defs filter_eval_defs)
  from url_library_is_spm [OF h, of "[]" "[]" "[]" "[''spm'']" url_lib_graph
      "[]" "[]" "[]" "[]" "[]" "[]" True] m n
  have "\<not> fst (lib_allowed [] [] [] [''spm''] (annotations url_lib_graph) ''Alamo''
          (lib_meta url_lib_graph))"
    and "lib_ext (apply_filters [] [] [] [] [] [] True url_lib_graph) ''Alamo'' = Some ''spm''"
    by simp_all
  with h n show ?thesis by simp
qed

subsection \<open>The traversal of the cycle detector\<close>


lemma pop_component_split:
  "v \<notin> set ys \<Longrightarrow> set ys \<subseteq> ons \<Longrightarrow> v \<in> ons \<Longrightarrow> distinct ys \<Longrightarrow>
   pop_component v (ys @ v # base) ons cmp = Inr (base, ons - set (ys @ [v]), cmp @ ys @ [v])"
proof (induction ys arbitrary: ons cmp)
  case Nil
  then show ?case by simp
next
  case (Cons y ys)
  have "pop_component v ((y # ys) @ v # base) ons cmp =
     pop_component v (ys @ v # base) (ons - {y}) (cmp @ [y])"
    using Cons.prems by auto
  also have "\<dots> = Inr (base, (ons - {y}) - set (ys @ [v]), (cmp @ [y]) @ ys @ [v])"
    using Cons.prems by (intro Cons.IH) auto
  also have "(ons - {y}) - set (ys @ [v]) = ons - set ((y # ys) @ [v])" by auto
  finally show ?case by simp
qed

lemma tinv_init: "tinv E [] tarjan_init"
  by (simp add: tinv_def tinv_state_def tinv_calls_def tinv_done_def tinv_reach_def
      tinv_sccs_def tarjan_init_def)

lemma sorted_wrt_idx_distinct:
  "sorted_wrt (\<lambda>x y. the (f y) < (the (f x) :: nat)) xs \<Longrightarrow> distinct xs"
  by (induction xs) auto

lemma tinv_stack_distinct: "tinv_state s \<Longrightarrow> distinct (stack s)"
  unfolding tinv_state_def using sorted_wrt_idx_distinct by blast


lemma entered_simps [simp]:
  "indices (entered v s) = (indices s)(v \<mapsto> index s)"
  "low (entered v s) = (low s)(v \<mapsto> index s)"
  "index (entered v s) = index s + 1"
  "stack (entered v s) = v # stack s"
  "onstack (entered v s) = insert v (onstack s)"
  "sccs (entered v s) = sccs s"
  by (simp_all add: entered_def)

lemma tinv_state_entered:
  assumes "tinv_state s" and "indices s v = None"
  shows "tinv_state (entered v s)"
proof -
  from assms have nv: "\<And>y. y \<in> set (stack s) \<Longrightarrow> y \<noteq> v"
    and lt: "\<And>y. y \<in> set (stack s) \<Longrightarrow> idx s y < index s"
    by (auto simp: tinv_state_def)
  have "sorted_wrt (\<lambda>x y. idx s y < idx s x) (stack s)"
    using assms(1) by (simp add: tinv_state_def)
  then have "sorted_wrt (\<lambda>x y. the (((indices s)(v \<mapsto> index s)) y) < the (((indices s)(v \<mapsto> index s)) x)) (stack s)"
    by (rule sorted_wrt_mono_rel [rotated]) (use nv in auto)
  moreover have "\<And>x n. indices s x = Some n \<Longrightarrow> n < index s"
    using assms(1) by (force simp: tinv_state_def)
  ultimately show ?thesis
    using assms nv lt by (auto simp: tinv_state_def less_Suc_eq)
qed

lemma tinv_calls_entered:
  assumes "tinv_state s" and "tinv_calls cs s" and "indices s v = None"
  shows "tinv_calls (v # cs) (entered v s)"
proof -
  from assms have sub: "set cs \<subseteq> set (stack s)" by (simp add: tinv_calls_def)
  from assms have nv: "\<And>y. y \<in> set (stack s) \<Longrightarrow> y \<noteq> v"
    and lt: "\<And>y. y \<in> set (stack s) \<Longrightarrow> idx s y < index s"
    by (auto simp: tinv_state_def)
  have "sorted_wrt (\<lambda>x y. idx s y < idx s x) cs"
    using assms(2) by (simp add: tinv_calls_def)
  then have "sorted_wrt (\<lambda>x y. the (((indices s)(v \<mapsto> index s)) y) < the (((indices s)(v \<mapsto> index s)) x)) cs"
    by (rule sorted_wrt_mono_rel [rotated]) (use nv sub in auto)
  then show ?thesis
    using sub nv lt by (auto simp: tinv_calls_def)
qed

lemma tinv_done_entered:
  assumes "tinv_done E cs s"
  shows "tinv_done E (v # cs) (entered v s)"
  using assms by (auto simp: tinv_done_def)

lemma tinv_sccs_entered:
  assumes "tinv_state s" and "tinv_sccs E s" and "indices s v = None"
  shows "tinv_sccs E (entered v s)"
proof -
  from assms have "v \<notin> set (stack s)" by (auto simp: tinv_state_def)
  moreover from assms(3) have "v \<notin> dom (indices s)" by auto
  ultimately have "dom ((indices s)(v \<mapsto> index s)) - set (v # stack s) = dom (indices s) - set (stack s)"
    by auto
  then show ?thesis using assms(2) by (simp add: tinv_sccs_def)
qed

lemma calls_hd_max:
  assumes "tinv_calls cs s" and "g \<in> set cs"
  shows "idx s g \<le> idx s (hd cs)"
proof (cases cs)
  case Nil
  with assms show ?thesis by simp
next
  case (Cons c cs')
  with assms show ?thesis by (auto simp: tinv_calls_def)
qed

lemma tinv_reach_entered:
  assumes st: "tinv_state s" and ca: "tinv_calls cs s" and re: "tinv_reach E cs s"
    and v: "indices s v = None" and e: "cs \<noteq> [] \<longrightarrow> (hd cs, v) \<in> E"
  shows "tinv_reach E (v # cs) (entered v s)"
proof -
  from st v have nv: "\<And>y. y \<in> set (stack s) \<Longrightarrow> y \<noteq> v"
    and lt: "\<And>y. y \<in> set (stack s) \<Longrightarrow> idx s y < index s"
    by (auto simp: tinv_state_def)
  from ca have sub: "set cs \<subseteq> set (stack s)" by (simp add: tinv_calls_def)
  have gv: "(g, v) \<in> E\<^sup>*" if g: "g \<in> set cs" for g
  proof -
    from g have ne: "cs \<noteq> []" by auto
    then have h: "hd cs \<in> set (stack s)" using sub by auto
    have "idx s g \<le> idx s (hd cs)" by (rule calls_hd_max [OF ca g])
    with re h g have "(g, hd cs) \<in> E\<^sup>*" by (auto simp: tinv_reach_def)
    moreover from e ne have "(hd cs, v) \<in> E" by simp
    ultimately show ?thesis by (rule rtrancl_into_rtrancl)
  qed
  have a: "(g, y) \<in> E\<^sup>*"
    if "y \<in> set (v # stack s)" "g \<in> set (v # cs)"
      "the (((indices s)(v \<mapsto> index s)) g) \<le> the (((indices s)(v \<mapsto> index s)) y)" for y g
  proof (cases "y = v")
    case True
    then show ?thesis using that gv by auto
  next
    case False
    with that have y: "y \<in> set (stack s)" by simp
    show ?thesis
    proof (cases "g = v")
      case True
      with that False lt [OF y] show ?thesis by simp
    next
      case False
      with that have g: "g \<in> set cs" by simp
      with sub nv have "g \<noteq> v" by auto
      with that \<open>y \<noteq> v\<close> have "idx s g \<le> idx s y" by simp
      with re y g show ?thesis by (auto simp: tinv_reach_def)
    qed
  qed
  have b: "\<exists>g \<in> set (v # cs). the (((indices s)(v \<mapsto> index s)) g) \<le> the (((indices s)(v \<mapsto> index s)) y) \<and> (y, g) \<in> E\<^sup>*"
    if "y \<in> set (v # stack s)" for y
  proof (cases "y = v")
    case True
    then show ?thesis by auto
  next
    case False
    with that have y: "y \<in> set (stack s)" by simp
    with re obtain g where g: "g \<in> set cs" "idx s g \<le> idx s y" "(y, g) \<in> E\<^sup>*"
      by (auto simp: tinv_reach_def)
    with sub nv have "g \<noteq> v" by auto
    with g False show ?thesis by auto
  qed
  show ?thesis unfolding tinv_reach_def entered_simps using a b by blast
qed

lemma tinv_entered:
  assumes "tinv E cs s" and "indices s v = None" and "cs \<noteq> [] \<longrightarrow> (hd cs, v) \<in> E"
  shows "tinv E (v # cs) (entered v s)"
  using assms tinv_state_entered tinv_calls_entered tinv_done_entered tinv_sccs_entered
    tinv_reach_entered unfolding tinv_def by blast

lemma tinv_low_update:
  assumes "tinv E cs s" and "v \<in> dom (indices s)"
  shows "tinv E cs (s\<lparr>low := (low s)(v \<mapsto> n)\<rparr>)"
  using assms
  by (auto simp: tinv_def tinv_state_def tinv_calls_def tinv_done_def tinv_reach_def tinv_sccs_def)


lemma rtrancl_leaves:
  assumes "(a, b) \<in> E\<^sup>*" and "a \<in> C" and "b \<notin> C"
  shows "\<exists>z y. z \<in> C \<and> y \<notin> C \<and> (a, z) \<in> E\<^sup>* \<and> (z, y) \<in> E \<and> (y, b) \<in> E\<^sup>*"
  using assms
proof (induction rule: rtrancl_induct)
  case base
  then show ?case by simp
next
  case (step y z)
  show ?case
  proof (cases "y \<in> C")
    case True
    with step show ?thesis by blast
  next
    case False
    from step.IH [OF step.prems(1) False] obtain z' y'
      where "z' \<in> C" "y' \<notin> C" "(a, z') \<in> E\<^sup>*" "(z', y') \<in> E" "(y', y) \<in> E\<^sup>*" by blast
    moreover from this(5) step.hyps(2) have "(y', z) \<in> E\<^sup>*" by (rule rtrancl_into_rtrancl)
    ultimately show ?thesis by blast
  qed
qed

text \<open>What the order of the stack gives, for the stack \<open>ys @ v # base\<close>.\<close>

lemma stack_split_order:
  assumes "tinv_state s" and "stack s = ys @ v # base"
  shows "\<forall>y \<in> set ys. idx s v < idx s y" and "\<forall>b \<in> set base. idx s b < idx s v"
    and "distinct (ys @ v # base)" and "set ys \<inter> set base = {}" and "v \<notin> set ys" and "v \<notin> set base"
proof -
  from assms have so: "sorted_wrt (\<lambda>x y. idx s y < idx s x) (ys @ v # base)"
    by (simp add: tinv_state_def)
  then show "\<forall>y \<in> set ys. idx s v < idx s y" and "\<forall>b \<in> set base. idx s b < idx s v"
    by (auto simp: sorted_wrt_append)
  from so have d: "distinct (ys @ v # base)" by (rule sorted_wrt_idx_distinct)
  then show "distinct (ys @ v # base)" .
  from d show "set ys \<inter> set base = {}" and "v \<notin> set ys" and "v \<notin> set base" by auto
qed

text \<open>The callers of \<open>v\<close> are below \<open>v\<close> on the stack.\<close>

lemma calls_below:
  assumes "tinv_state s" and "tinv_calls (v # cs) s" and "stack s = ys @ v # base"
  shows "set cs \<subseteq> set base" and "\<forall>g \<in> set cs. idx s g < idx s v"
proof -
  from assms(2) have lt: "\<forall>g \<in> set cs. idx s g < idx s v" and sub: "set cs \<subseteq> set (stack s)"
    by (auto simp: tinv_calls_def)
  then show "\<forall>g \<in> set cs. idx s g < idx s v" by simp
  show "set cs \<subseteq> set base"
  proof
    fix g assume g: "g \<in> set cs"
    with lt have l: "idx s g < idx s v" by simp
    from g sub assms(3) have "g \<in> set ys \<or> g = v \<or> g \<in> set base" by auto
    with l stack_split_order(1) [OF assms(1,3)] show "g \<in> set base"
      by (metis less_irrefl less_trans)
  qed
qed

text \<open>Every node on the stack from \<open>v\<close> upwards reaches \<open>v\<close> and is reached from it.\<close>

lemma above_mutual:
  assumes st: "tinv_state s" and ca: "tinv_calls (v # cs) s" and re: "tinv_reach E (v # cs) s"
    and sp: "stack s = ys @ v # base" and y: "y \<in> set (ys @ [v])"
  shows "(v, y) \<in> E\<^sup>*" and "(y, v) \<in> E\<^sup>*"
proof -
  from y sp have ys: "y \<in> set (stack s)" by auto
  from y stack_split_order(1) [OF st sp] have le: "idx s v \<le> idx s y" by auto
  with re ys show "(v, y) \<in> E\<^sup>*" by (auto simp: tinv_reach_def)
  from sp have vs: "v \<in> set (stack s)" by simp
  from re ys obtain g where g: "g \<in> set (v # cs)" "idx s g \<le> idx s y" "(y, g) \<in> E\<^sup>*"
    unfolding tinv_reach_def by blast
  show "(y, v) \<in> E\<^sup>*"
  proof (cases "g = v")
    case True
    with g show ?thesis by simp
  next
    case False
    with g have gc: "g \<in> set cs" by simp
    with calls_below(2) [OF st ca sp] have "idx s g \<le> idx s v" by auto
    with re vs g(1) have "(g, v) \<in> E\<^sup>*" unfolding tinv_reach_def by blast
    with g(3) show ?thesis by (rule rtrancl_trans)
  qed
qed


lemma visit_inv_facts:
  assumes "visit_inv E cs v base P s" and "stack s = ys @ v # base"
  shows "tinv_state s" and "tinv_calls (v # cs) s" and "tinv_done E (v # cs) s"
    and "tinv_reach E (v # cs) s" and "tinv_sccs E s"
    and "\<forall>z \<in> set ys. \<forall>y \<in> set base. (z, y) \<in> E \<longrightarrow> lowlink s v \<le> idx s y"
    and "\<forall>y \<in> P \<inter> set base. lowlink s v \<le> idx s y"
    and "P \<subseteq> dom (indices s)" and "lowlink s v \<le> idx s v"
    and "\<exists>u \<in> set (stack s). low s v = indices s u \<and> (v, u) \<in> E\<^sup>*"
proof -
  from assms(1) show "tinv_state s" "tinv_calls (v # cs) s" "tinv_done E (v # cs) s"
    "tinv_reach E (v # cs) s" "tinv_sccs E s"
    by (simp_all add: visit_inv_def tinv_def)
  from assms(1) obtain ys' where "stack s = ys' @ v # base"
    and x: "\<forall>z \<in> set ys'. \<forall>y \<in> set base. (z, y) \<in> E \<longrightarrow> lowlink s v \<le> idx s y"
    unfolding visit_inv_def by blast
  with assms(2) have "ys' = ys" by simp
  with x show "\<forall>z \<in> set ys. \<forall>y \<in> set base. (z, y) \<in> E \<longrightarrow> lowlink s v \<le> idx s y" by simp
  from assms(1) show "\<forall>y \<in> P \<inter> set base. lowlink s v \<le> idx s y"
    "P \<subseteq> dom (indices s)" "lowlink s v \<le> idx s v"
    "\<exists>u \<in> set (stack s). low s v = indices s u \<and> (v, u) \<in> E\<^sup>*"
    by (simp_all add: visit_inv_def)
qed

text \<open>An edge that leaves the nodes from \<open>v\<close> upwards ends below \<open>v\<close> or off the stack.\<close>

lemma edge_out_covered:
  assumes inv: "visit_inv E cs v base P s" and succ: "\<forall>w. (v, w) \<in> E \<longrightarrow> w \<in> P"
    and sp: "stack s = ys @ v # base"
    and z: "z \<in> set (ys @ [v])" and e: "(z, y) \<in> E"
  shows "y \<in> dom (indices s)" and "y \<in> set base \<longrightarrow> lowlink s v \<le> idx s y"
proof -
  note f = visit_inv_facts [OF inv sp]
  show "y \<in> dom (indices s)"
  proof (cases "z = v")
    case True
    with e succ f(8) show ?thesis by blast
  next
    case False
    with z have zy: "z \<in> set ys" by simp
    with stack_split_order(1) [OF f(1) sp] have gt: "idx s v < idx s z" by simp
    from calls_below(2) [OF f(1,2) sp] gt have "z \<notin> set cs" by auto
    moreover from zy sp f(1) have "z \<in> dom (indices s)" by (auto simp: tinv_state_def)
    ultimately have "z \<in> dom (indices s) - set (v # cs)" using False by simp
    with f(3) e show ?thesis unfolding tinv_done_def by blast
  qed
  show "y \<in> set base \<longrightarrow> lowlink s v \<le> idx s y"
  proof (cases "z = v")
    case True
    with e succ have "y \<in> P" by blast
    with f(7) show ?thesis by blast
  next
    case False
    with z have "z \<in> set ys" by simp
    with f(6) e show ?thesis by blast
  qed
qed

lemma root_component:
  assumes inv: "visit_inv E cs v base P s" and succ: "\<forall>w. (v, w) \<in> E \<longrightarrow> w \<in> P"
    and sp: "stack s = ys @ v # base" and root: "lowlink s v = idx s v"
  shows "is_scc E (set (ys @ [v]))"
proof -
  note f = visit_inv_facts [OF inv sp]
  let ?C = "set (ys @ [v])"
  note mut = above_mutual [OF f(1,2,4) sp]
  have a: "(x, y) \<in> E\<^sup>*" if "x \<in> ?C" "y \<in> ?C" for x y
  proof -
    from mut(2) [OF that(1)] mut(1) [OF that(2)] show ?thesis by (rule rtrancl_trans)
  qed
  have b: "y \<in> ?C" if x: "x \<in> ?C" and xy: "(x, y) \<in> E\<^sup>*" and yx: "(y, x) \<in> E\<^sup>*" for x y
  proof (rule ccontr)
    assume ny: "y \<notin> ?C"
    from mut(1) [OF x] xy have vy: "(v, y) \<in> E\<^sup>*" by (rule rtrancl_trans)
    from yx mut(2) [OF x] have yv: "(y, v) \<in> E\<^sup>*" by (rule rtrancl_trans)
    have "v \<in> ?C" by simp
    from rtrancl_leaves [OF vy this ny] obtain z y'
      where z: "z \<in> ?C" and y': "y' \<notin> ?C" and vz: "(v, z) \<in> E\<^sup>*" and e: "(z, y') \<in> E"
        and y'y: "(y', y) \<in> E\<^sup>*" by blast
    from y'y yv have y'v: "(y', v) \<in> E\<^sup>*" by (rule rtrancl_trans)
    from vz e have vy': "(v, y') \<in> E\<^sup>*" by (rule rtrancl_into_rtrancl)
    note c = edge_out_covered [OF inv succ sp z e]
    show False
    proof (cases "y' \<in> set (stack s)")
      case True
      with y' sp have yb: "y' \<in> set base" by auto
      with c(2) have "lowlink s v \<le> idx s y'" by simp
      moreover from stack_split_order(2) [OF f(1) sp] yb have "idx s y' < idx s v" by simp
      ultimately show False using root by simp
    next
      case False
      with c(1) have "y' \<in> dom (indices s) - set (stack s)" by simp
      with f(5) obtain c' where c': "c' \<in> set (sccs s)" "y' \<in> set c'"
        unfolding tinv_sccs_def by auto
      with f(5) have "is_scc E (set c')" unfolding tinv_sccs_def by blast
      with c'(2) y'v vy' have "v \<in> set c'" unfolding is_scc_def by blast
      with c'(1) f(5) have "v \<in> dom (indices s) - set (stack s)"
        unfolding tinv_sccs_def by blast
      with sp show False by simp
    qed
  qed
  show ?thesis unfolding is_scc_def using a b by (intro conjI) (simp, blast, blast)
qed


lemma tinv_popped:
  assumes inv: "visit_inv E cs v base P s" and succ: "\<forall>w. (v, w) \<in> E \<longrightarrow> w \<in> P"
    and sp: "stack s = ys @ v # base" and root: "lowlink s v = idx s v"
  shows "tinv E cs (s\<lparr>stack := base, onstack := onstack s - set (ys @ [v]),
                      sccs := sccs s @ [ys @ [v]]\<rparr>)"
proof -
  note f = visit_inv_facts [OF inv sp]
  note o = stack_split_order [OF f(1) sp]
  note cb = calls_below [OF f(1,2) sp]
  let ?s' = "s\<lparr>stack := base, onstack := onstack s - set (ys @ [v]), sccs := sccs s @ [ys @ [v]]\<rparr>"
  have dom_sub: "set (ys @ v # base) \<subseteq> dom (indices s)"
    using f(1) sp by (simp add: tinv_state_def)
  have "onstack s - set (ys @ [v]) = set base"
    using f(1) sp o by (auto simp: tinv_state_def)
  moreover have "sorted_wrt (\<lambda>x y. idx s y < idx s x) base"
    using f(1) sp by (simp add: tinv_state_def sorted_wrt_append)
  ultimately have 1: "tinv_state ?s'"
    using f(1) dom_sub by (simp add: tinv_state_def)
  have 2: "tinv_calls cs ?s'"
    using f(2) cb(1) by (simp add: tinv_calls_def)
  have 3: "tinv_done E cs ?s'"
    unfolding tinv_done_def
  proof (intro ballI allI impI)
    fix x y assume x: "x \<in> dom (indices ?s') - set cs" and e: "(x, y) \<in> E"
    show "y \<in> dom (indices ?s')"
    proof (cases "x = v")
      case True
      with e succ f(8) show ?thesis by auto
    next
      case False
      with x have "x \<in> dom (indices s) - set (v # cs)" by simp
      with f(3) e have "y \<in> dom (indices s)" unfolding tinv_done_def by blast
      then show ?thesis by simp
    qed
  qed
  have 4: "tinv_reach E cs ?s'"
    unfolding tinv_reach_def
  proof (intro conjI ballI impI)
    fix y g assume a: "y \<in> set (stack ?s')" "g \<in> set cs" "idx ?s' g \<le> idx ?s' y"
    with sp have "y \<in> set (stack s)" "g \<in> set (v # cs)" "idx s g \<le> idx s y" by simp_all
    with f(4) show "(g, y) \<in> E\<^sup>*" unfolding tinv_reach_def by blast
  next
    fix y assume y: "y \<in> set (stack ?s')"
    then have yb: "y \<in> set base" by simp
    with sp have "y \<in> set (stack s)" by simp
    with f(4) obtain g where g: "g \<in> set (v # cs)" "idx s g \<le> idx s y" "(y, g) \<in> E\<^sup>*"
      unfolding tinv_reach_def by blast
    from o(2) yb g(2) have "g \<noteq> v" by auto
    with g show "\<exists>g \<in> set cs. idx ?s' g \<le> idx ?s' y \<and> (y, g) \<in> E\<^sup>*" by auto
  qed
  have scc: "is_scc E (set (ys @ [v]))" by (rule root_component [OF inv succ sp root])
  have "distinct (ys @ [v])" using o(3) by simp
  moreover have "dom (indices s) - set base = (dom (indices s) - set (stack s)) \<union> set (ys @ [v])"
    using dom_sub o sp by auto
  ultimately have 5: "tinv_sccs E ?s'"
    using f(5) scc by (auto simp: tinv_sccs_def)
  from 1 2 3 4 5 show ?thesis by (simp add: tinv_def)
qed


lemma tinv_returned:
  assumes inv: "visit_inv E cs v base P s" and succ: "\<forall>w. (v, w) \<in> E \<longrightarrow> w \<in> P"
    and sp: "stack s = ys @ v # base" and nonroot: "lowlink s v \<noteq> idx s v"
  shows "tinv E cs s"
    and "\<exists>u \<in> set base. low s v = indices s u \<and> (v, u) \<in> E\<^sup>*"
    and "\<forall>z \<in> set (ys @ [v]). \<forall>y \<in> set base. (z, y) \<in> E \<longrightarrow> lowlink s v \<le> idx s y"
proof -
  note f = visit_inv_facts [OF inv sp]
  note o = stack_split_order [OF f(1) sp]
  note cb = calls_below [OF f(1,2) sp]
  from f(10) obtain u where u: "u \<in> set (stack s)" "low s v = indices s u" "(v, u) \<in> E\<^sup>*"
    by blast
  from u(2) nonroot f(9) have lt: "idx s u < idx s v" by simp
  have ub: "u \<in> set base"
  proof -
    from u(1) sp have "u \<in> set ys \<or> u = v \<or> u \<in> set base" by auto
    moreover have "u \<notin> set ys"
    proof
      assume "u \<in> set ys"
      with o(1) have "idx s v < idx s u" by simp
      with lt show False by simp
    qed
    moreover from lt have "u \<noteq> v" by auto
    ultimately show ?thesis by simp
  qed
  with u show "\<exists>u \<in> set base. low s v = indices s u \<and> (v, u) \<in> E\<^sup>*" by blast
  show "\<forall>z \<in> set (ys @ [v]). \<forall>y \<in> set base. (z, y) \<in> E \<longrightarrow> lowlink s v \<le> idx s y"
    using edge_out_covered(2) [OF inv succ sp] by blast
  have 2: "tinv_calls cs s" using f(2) by (simp add: tinv_calls_def)
  have 3: "tinv_done E cs s"
    unfolding tinv_done_def
  proof (intro ballI allI impI)
    fix x y assume x: "x \<in> dom (indices s) - set cs" and e: "(x, y) \<in> E"
    show "y \<in> dom (indices s)"
    proof (cases "x = v")
      case True
      with e succ f(8) show ?thesis by auto
    next
      case False
      with x have "x \<in> dom (indices s) - set (v # cs)" by simp
      with f(3) e show ?thesis unfolding tinv_done_def by blast
    qed
  qed
  from f(4) u(1) obtain gu where gu: "gu \<in> set (v # cs)" "idx s gu \<le> idx s u" "(u, gu) \<in> E\<^sup>*"
    unfolding tinv_reach_def by blast
  with lt have guc: "gu \<in> set cs" by auto
  have 4: "tinv_reach E cs s"
    unfolding tinv_reach_def
  proof (intro conjI ballI impI)
    fix y g assume "y \<in> set (stack s)" "g \<in> set cs" "idx s g \<le> idx s y"
    with f(4) show "(g, y) \<in> E\<^sup>*" unfolding tinv_reach_def by simp
  next
    fix y assume y: "y \<in> set (stack s)"
    with f(4) obtain g where g: "g \<in> set (v # cs)" "idx s g \<le> idx s y" "(y, g) \<in> E\<^sup>*"
      unfolding tinv_reach_def by blast
    show "\<exists>g \<in> set cs. idx s g \<le> idx s y \<and> (y, g) \<in> E\<^sup>*"
    proof (cases "g = v")
      case False
      with g show ?thesis by auto
    next
      case True
      from True g(3) have "(y, v) \<in> E\<^sup>*" by simp
      from this u(3) have "(y, u) \<in> E\<^sup>*" by (rule rtrancl_trans)
      from this gu(3) have "(y, gu) \<in> E\<^sup>*" by (rule rtrancl_trans)
      moreover from True g(2) lt gu(2) have "idx s gu \<le> idx s y" by simp
      ultimately show ?thesis using guc by blast
    qed
  qed
  from f(1) 2 3 4 f(5) show "tinv E cs s" by (simp add: tinv_def)
qed


lemma frame_refl [simp]: "frame X s s"
  by (simp add: frame_def)

lemma frame_dom: "frame X s s' \<Longrightarrow> dom (indices s) \<subseteq> dom (indices s')"
  unfolding frame_def by (metis domD domI subsetI)

lemma frame_trans:
  assumes "frame X s s'" and "frame X s' s''"
  shows "frame X s s''"
proof -
  have "indices s'' x = indices s x \<and> (x \<notin> X \<longrightarrow> low s'' x = low s x)"
    if x: "x \<in> dom (indices s)" for x
  proof -
    from frame_dom [OF assms(1)] x have "x \<in> dom (indices s')" by blast
    with assms(2) have "indices s'' x = indices s' x \<and> (x \<notin> X \<longrightarrow> low s'' x = low s' x)"
      unfolding frame_def by blast
    moreover from assms(1) x have "indices s' x = indices s x \<and> (x \<notin> X \<longrightarrow> low s' x = low s x)"
      unfolding frame_def by blast
    ultimately show ?thesis by simp
  qed
  then show ?thesis unfolding frame_def by blast
qed

lemma frame_mono: "frame X s s' \<Longrightarrow> X \<subseteq> Y \<Longrightarrow> frame Y s s'"
  unfolding frame_def by blast

lemma frame_low_update: "frame {v} s (s\<lparr>low := (low s)(v \<mapsto> n)\<rparr>)"
  by (simp add: frame_def)

lemma visit_inv_stack:
  assumes "visit_inv E cs v base P s"
  obtains ys where "stack s = ys @ v # base"
  using assms unfolding visit_inv_def by blast

lemma visit_inv_low_defined:
  assumes "visit_inv E cs v base P s"
  obtains lv iv where "low s v = Some lv" and "indices s v = Some iv"
proof -
  from assms obtain ys where sp: "stack s = ys @ v # base" by (rule visit_inv_stack)
  from visit_inv_facts(1) [OF assms sp] sp have "v \<in> dom (indices s)" "v \<in> dom (low s)"
    by (auto simp: tinv_state_def)
  with that show thesis by blast
qed

text \<open>A successor that was visited before and is no longer on the stack.\<close>

lemma visit_inv_skip:
  assumes inv: "visit_inv E cs v base P s" and w: "indices s w \<noteq> None" "w \<notin> onstack s"
  shows "visit_inv E cs v base (insert w P) s"
proof -
  from inv obtain ys where sp: "stack s = ys @ v # base" by (rule visit_inv_stack)
  note f = visit_inv_facts [OF inv sp]
  from f(1) w(2) sp have "w \<notin> set base" by (auto simp: tinv_state_def)
  moreover from w(1) have "w \<in> dom (indices s)" by auto
  ultimately show ?thesis using inv unfolding visit_inv_def by auto
qed

text \<open>A successor that is on the stack: \<open>low[v] = min(low[v], indices[w])\<close>.\<close>

lemma visit_inv_onstack:
  assumes inv: "visit_inv E cs v base P s" and e: "(v, w) \<in> E"
    and w: "indices s w = Some iw" "w \<in> onstack s" and lv: "low s v = Some lv"
  shows "visit_inv E cs v base (insert w P) (s\<lparr>low := (low s)(v \<mapsto> min lv iw)\<rparr>)"
proof -
  from inv obtain ys where sp: "stack s = ys @ v # base" by (rule visit_inv_stack)
  note f = visit_inv_facts [OF inv sp]
  let ?s' = "s\<lparr>low := (low s)(v \<mapsto> min lv iw)\<rparr>"
  from f(1) sp have vd: "v \<in> dom (indices s)" by (auto simp: tinv_state_def)
  from inv have "tinv E (v # cs) s" by (simp add: visit_inv_def)
  then have 1: "tinv E (v # cs) ?s'" using vd by (rule tinv_low_update)
  have 2: "\<forall>z \<in> set ys. \<forall>y \<in> set base. (z, y) \<in> E \<longrightarrow> lowlink ?s' v \<le> idx ?s' y"
    using f(6) lv by (auto simp: min_le_iff_disj)
  have 3: "\<forall>y \<in> insert w P \<inter> set base. lowlink ?s' v \<le> idx ?s' y"
    using f(7) lv w(1) by (auto simp: min_le_iff_disj)
  have 4: "insert w P \<subseteq> dom (indices ?s')" using f(8) w(1) by auto
  have 5: "lowlink ?s' v \<le> idx ?s' v" using f(9) lv by (auto simp: min_le_iff_disj)
  from f(1) w(2) have ws: "w \<in> set (stack s)" by (simp add: tinv_state_def)
  have 6: "\<exists>u \<in> set (stack ?s'). low ?s' v = indices ?s' u \<and> (v, u) \<in> E\<^sup>*"
  proof (cases "lv \<le> iw")
    case True
    then have "min lv iw = lv" by simp
    with f(10) lv show ?thesis by auto
  next
    case False
    then have "min lv iw = iw" by simp
    moreover from e have "(v, w) \<in> E\<^sup>*" by (rule r_into_rtrancl)
    ultimately have "w \<in> set (stack ?s') \<and> low ?s' v = indices ?s' w \<and> (v, w) \<in> E\<^sup>*"
      using ws w(1) by simp
    then show ?thesis by blast
  qed
  from sp have sp': "stack ?s' = ys @ v # base" by simp
  show ?thesis unfolding visit_inv_def using 1 2 3 4 5 6 sp' by blast
qed


text \<open>A successor that was not visited: after \<open>strongconnect(w)\<close>, \<open>low[v] = min(low[v], low[w])\<close>.\<close>

lemma visit_inv_after_call:
  assumes inv: "visit_inv E cs v base P s" and e: "(v, w) \<in> E" and w: "indices s w = None"
    and post: "sc_post E (v # cs) s w s'"
  shows "\<exists>lv lw. low s' v = Some lv \<and> low s' w = Some lw \<and>
           visit_inv E cs v base (insert w P) (s'\<lparr>low := (low s')(v \<mapsto> min lv lw)\<rparr>) \<and>
           frame {v} s (s'\<lparr>low := (low s')(v \<mapsto> min lv lw)\<rparr>)"
proof -
  from inv obtain ys where sp: "stack s = ys @ v # base" by (rule visit_inv_stack)
  note f = visit_inv_facts [OF inv sp]
  from post have t': "tinv E (v # cs) s'" and fr: "frame {} s s'"
    and iw: "indices s' w = Some (index s)"
    by (simp_all add: sc_post_def)
  from post obtain zs where zs: "stack s' = zs @ stack s"
    and cases: "zs = [] \<and> low s' w = indices s' w \<or>
         zs \<noteq> [] \<and> last zs = w \<and>
         (\<exists>u \<in> set (stack s). low s' w = indices s' u \<and> (w, u) \<in> E\<^sup>*) \<and>
         (\<forall>z \<in> set zs. \<forall>y \<in> set (stack s). (z, y) \<in> E \<longrightarrow> lowlink s' w \<le> idx s' y)"
    unfolding sc_post_def by blast
  from t' have st': "tinv_state s'" by (simp add: tinv_def)
  have same: "indices s' x = indices s x" if "x \<in> dom (indices s)" for x
    using fr that unfolding frame_def by blast
  have stack_dom: "set (stack s) \<subseteq> dom (indices s)" using f(1) by (simp add: tinv_state_def)
  have base_dom: "set base \<subseteq> dom (indices s)" using stack_dom sp by auto
  have vd: "v \<in> dom (indices s)" using stack_dom sp by auto
  from inv obtain lv iv where lv: "low s v = Some lv" and iv: "indices s v = Some iv"
    by (rule visit_inv_low_defined)
  from fr vd lv have lv': "low s' v = Some lv" unfolding frame_def by auto
  from same [OF vd] iv have iv': "indices s' v = Some iv" by simp
  from iw st' have "w \<in> dom (low s')" unfolding tinv_state_def by auto
  then obtain lw where lw: "low s' w = Some lw" by auto
  let ?s'' = "s'\<lparr>low := (low s')(v \<mapsto> min lv lw)\<rparr>"
  from iv' have vd': "v \<in> dom (indices s')" by auto
  have 1: "tinv E (v # cs) ?s''" using t' vd' by (rule tinv_low_update)
  have sp'': "stack ?s'' = (zs @ ys) @ v # base" using zs sp by simp
  from f(9) lv iv have lviv: "lv \<le> iv" by simp
  from f(1) vd iv have ivlt: "iv < index s" unfolding tinv_state_def by force
  have 2: "\<forall>z \<in> set (zs @ ys). \<forall>y \<in> set base. (z, y) \<in> E \<longrightarrow> lowlink ?s'' v \<le> idx ?s'' y"
  proof (intro ballI impI)
    fix z y assume z: "z \<in> set (zs @ ys)" and y: "y \<in> set base" and zy: "(z, y) \<in> E"
    from y base_dom have yi: "indices s' y = indices s y" by (intro same) auto
    show "lowlink ?s'' v \<le> idx ?s'' y"
    proof (cases "z \<in> set ys")
      case True
      with f(6) y zy have "lowlink s v \<le> idx s y" by blast
      with lv yi show ?thesis by (simp add: min_le_iff_disj)
    next
      case False
      with z have zz: "z \<in> set zs" by simp
      then have "zs \<noteq> []" by auto
      with cases have "\<forall>z \<in> set zs. \<forall>y \<in> set (stack s). (z, y) \<in> E \<longrightarrow> lowlink s' w \<le> idx s' y"
        by blast
      moreover from y sp have "y \<in> set (stack s)" by simp
      ultimately have "lowlink s' w \<le> idx s' y" using zz zy by blast
      with lw show ?thesis by (simp add: min_le_iff_disj)
    qed
  qed
  have wb: "w \<notin> set base" using w base_dom by auto
  have 3: "\<forall>y \<in> insert w P \<inter> set base. lowlink ?s'' v \<le> idx ?s'' y"
  proof
    fix y assume y: "y \<in> insert w P \<inter> set base"
    with wb have yp: "y \<in> P \<inter> set base" by auto
    with f(7) have "lowlink s v \<le> idx s y" by blast
    moreover from yp base_dom have "indices s' y = indices s y" by (intro same) auto
    ultimately show "lowlink ?s'' v \<le> idx ?s'' y" using lv by (simp add: min_le_iff_disj)
  qed
  have 4: "insert w P \<subseteq> dom (indices ?s'')"
    using f(8) frame_dom [OF fr] iw by auto
  have 5: "lowlink ?s'' v \<le> idx ?s'' v" using lviv iv' by (simp add: min_le_iff_disj)
  have 6: "\<exists>u \<in> set (stack ?s''). low ?s'' v = indices ?s'' u \<and> (v, u) \<in> E\<^sup>*"
  proof (cases "lv \<le> lw")
    case True
    then have m: "min lv lw = lv" by simp
    from f(10) obtain u where u: "u \<in> set (stack s)" "low s v = indices s u" "(v, u) \<in> E\<^sup>*"
      by blast
    from u(1) stack_dom have "indices s' u = indices s u" by (intro same) auto
    with u lv m zs have "u \<in> set (stack ?s'') \<and> low ?s'' v = indices ?s'' u \<and> (v, u) \<in> E\<^sup>*"
      by simp
    then show ?thesis by blast
  next
    case False
    then have m: "min lv lw = lw" by simp
    have "zs \<noteq> []"
    proof
      assume "zs = []"
      with cases have "low s' w = indices s' w" by blast
      with lw iw have "lw = index s" by simp
      with False lviv ivlt show False by simp
    qed
    with cases obtain u where u: "u \<in> set (stack s)" "low s' w = indices s' u" "(w, u) \<in> E\<^sup>*"
      by blast
    from e u(3) have "(v, u) \<in> E\<^sup>*" by (rule converse_rtrancl_into_rtrancl)
    with u lw m zs have "u \<in> set (stack ?s'') \<and> low ?s'' v = indices ?s'' u \<and> (v, u) \<in> E\<^sup>*"
      by simp
    then show ?thesis by blast
  qed
  have inv'': "visit_inv E cs v base (insert w P) ?s''"
    unfolding visit_inv_def using 1 2 3 4 5 6 sp'' by blast
  have "frame {v} s ?s''"
    using fr unfolding frame_def by auto
  with inv'' lv' lw show ?thesis by blast
qed


lemma returns_weaken:
  assumes "returns V d s1 Q r" and "finite V" and "dom (indices s) \<subseteq> dom (indices s1)"
    and "\<And>t. Q t \<Longrightarrow> Q' t"
  shows "returns V d s Q' r"
proof (cases r)
  case (Inl e)
  have "card (V - dom (indices s1)) \<le> card (V - dom (indices s))"
    using assms(2,3) by (intro card_mono) auto
  with assms(1) Inl show ?thesis by (simp add: returns_def)
next
  case (Inr t)
  with assms(1,4) show ?thesis by (simp add: returns_def)
qed

lemma visit_successors_returns:
  assumes fin: "finite V"
    and sc: "\<And>cs s w. tinv E cs s \<Longrightarrow> indices s w = None \<Longrightarrow> w \<in> V \<Longrightarrow>
               (cs \<noteq> [] \<longrightarrow> (hd cs, w) \<in> E) \<Longrightarrow>
               returns V d s (sc_post E cs s w) (strongconnect d adj w s)"
  shows "visit_inv E cs v base P s \<Longrightarrow> \<forall>w \<in> set ws. (v, w) \<in> E \<and> w \<in> V \<Longrightarrow>
     returns V d s (\<lambda>s'. visit_inv E cs v base (P \<union> set ws) s' \<and> frame {v} s s')
       (visit_successors d adj v ws s)"
proof (induction ws arbitrary: s P)
  case Nil
  then show ?case by (simp add: returns_def)
next
  case (Cons w ws)
  from Cons.prems(2) have e: "(v, w) \<in> E" and wV: "w \<in> V"
    and rest: "\<forall>w \<in> set ws. (v, w) \<in> E \<and> w \<in> V" by simp_all
  note inv = Cons.prems(1)
  have un: "insert w P \<union> set ws = P \<union> set (w # ws)" by auto
  show ?case
  proof (cases "indices s w")
    case None
    from inv have "tinv E (v # cs) s" by (simp add: visit_inv_def)
    from sc [OF this None wV] e
    have r: "returns V d s (sc_post E (v # cs) s w) (strongconnect d adj w s)" by simp
    show ?thesis
    proof (cases "strongconnect d adj w s")
      case (Inl err)
      with r None show ?thesis by (simp add: returns_def)
    next
      case (Inr s')
      with r have post: "sc_post E (v # cs) s w s'" by (simp add: returns_def)
      from visit_inv_after_call [OF inv e None post] obtain lv lw
        where l: "low s' v = Some lv" "low s' w = Some lw"
          and inv': "visit_inv E cs v base (insert w P) (s'\<lparr>low := (low s')(v \<mapsto> min lv lw)\<rparr>)"
          and fr: "frame {v} s (s'\<lparr>low := (low s')(v \<mapsto> min lv lw)\<rparr>)"
        by blast
      let ?s'' = "s'\<lparr>low := (low s')(v \<mapsto> min lv lw)\<rparr>"
      have eq: "visit_successors d adj v (w # ws) s = visit_successors d adj v ws ?s''"
        using None Inr l by simp
      have "returns V d ?s'' (\<lambda>t. visit_inv E cs v base (insert w P \<union> set ws) t \<and> frame {v} ?s'' t)
          (visit_successors d adj v ws ?s'')"
        by (rule Cons.IH [OF inv' rest])
      then have "returns V d s (\<lambda>t. visit_inv E cs v base (P \<union> set (w # ws)) t \<and> frame {v} s t)
          (visit_successors d adj v ws ?s'')"
      proof (rule returns_weaken [OF _ fin frame_dom [OF fr]])
        fix t assume "visit_inv E cs v base (insert w P \<union> set ws) t \<and> frame {v} ?s'' t"
        with fr un show "visit_inv E cs v base (P \<union> set (w # ws)) t \<and> frame {v} s t"
          using frame_trans by metis
      qed
      with eq show ?thesis by simp
    qed
  next
    case (Some iw)
    show ?thesis
    proof (cases "w \<in> onstack s")
      case True
      from inv obtain lv iv where lv: "low s v = Some lv" and iv: "indices s v = Some iv"
        by (rule visit_inv_low_defined)
      let ?s'' = "s\<lparr>low := (low s)(v \<mapsto> min lv iw)\<rparr>"
      have inv': "visit_inv E cs v base (insert w P) ?s''"
        by (rule visit_inv_onstack [OF inv e Some True lv])
      have fr: "frame {v} s ?s''" by (rule frame_low_update)
      have eq: "visit_successors d adj v (w # ws) s = visit_successors d adj v ws ?s''"
        using Some True lv by simp
      have "returns V d ?s'' (\<lambda>t. visit_inv E cs v base (insert w P \<union> set ws) t \<and> frame {v} ?s'' t)
          (visit_successors d adj v ws ?s'')"
        by (rule Cons.IH [OF inv' rest])
      then have "returns V d s (\<lambda>t. visit_inv E cs v base (P \<union> set (w # ws)) t \<and> frame {v} s t)
          (visit_successors d adj v ws ?s'')"
      proof (rule returns_weaken [OF _ fin frame_dom [OF fr]])
        fix t assume "visit_inv E cs v base (insert w P \<union> set ws) t \<and> frame {v} ?s'' t"
        with fr un show "visit_inv E cs v base (P \<union> set (w # ws)) t \<and> frame {v} s t"
          using frame_trans by metis
      qed
      with eq show ?thesis by simp
    next
      case False
      have inv': "visit_inv E cs v base (insert w P) s"
        by (rule visit_inv_skip [OF inv _ False]) (simp add: Some)
      have eq: "visit_successors d adj v (w # ws) s = visit_successors d adj v ws s"
        using Some False by simp
      have "returns V d s (\<lambda>t. visit_inv E cs v base (insert w P \<union> set ws) t \<and> frame {v} s t)
          (visit_successors d adj v ws s)"
        by (rule Cons.IH [OF inv' rest])
      with eq un show ?thesis by simp
    qed
  qed
qed


lemma strongconnect_Suc:
  "strongconnect (Suc d) adj v s =
     (case visit_successors d adj v (adj_get adj v) (entered v s) of
        Inl e \<Rightarrow> Inl e
      | Inr s' \<Rightarrow>
          (case (low s' v, indices s' v) of
             (Some lv, Some iv) \<Rightarrow>
               if lv = iv then
                 (case pop_component v (stack s') (onstack s') [] of
                    Inl e \<Rightarrow> Inl e
                  | Inr (st, ons, cmp) \<Rightarrow>
                      Inr (s'\<lparr>stack := st, onstack := ons, sccs := sccs s' @ [cmp]\<rparr>))
               else Inr s'
           | _ \<Rightarrow> Inl KeyError))"
  by (simp add: entered_def)

lemma visit_inv_entered:
  assumes "tinv E cs s" and "indices s v = None" and "cs \<noteq> [] \<longrightarrow> (hd cs, v) \<in> E"
  shows "visit_inv E cs v (stack s) {} (entered v s)"
proof -
  have 1: "tinv E (v # cs) (entered v s)" by (rule tinv_entered [OF assms])
  have "stack (entered v s) = [] @ v # stack s \<and>
      (\<forall>z \<in> set []. \<forall>y \<in> set (stack s). (z, y) \<in> E \<longrightarrow>
         lowlink (entered v s) v \<le> idx (entered v s) y)" by simp
  then have 2: "\<exists>ys. stack (entered v s) = ys @ v # stack s \<and>
      (\<forall>z \<in> set ys. \<forall>y \<in> set (stack s). (z, y) \<in> E \<longrightarrow>
         lowlink (entered v s) v \<le> idx (entered v s) y)" by (rule exI)
  have 3: "\<forall>y \<in> {} \<inter> set (stack s). lowlink (entered v s) v \<le> idx (entered v s) y" by simp
  have 4: "{} \<subseteq> dom (indices (entered v s))" by simp
  have 5: "lowlink (entered v s) v \<le> idx (entered v s) v" by simp
  have "v \<in> set (stack (entered v s)) \<and>
      low (entered v s) v = indices (entered v s) v \<and> (v, v) \<in> E\<^sup>*" by simp
  then have 6: "\<exists>u \<in> set (stack (entered v s)).
      low (entered v s) v = indices (entered v s) u \<and> (v, u) \<in> E\<^sup>*" by blast
  from 1 2 3 4 5 6 show ?thesis unfolding visit_inv_def by blast
qed

lemma strongconnect_returns:
  assumes fin: "finite V" and clo: "\<forall>x y. (x, y) \<in> adj_edges adj \<longrightarrow> y \<in> V"
  shows "tinv (adj_edges adj) cs s \<Longrightarrow> indices s v = None \<Longrightarrow> v \<in> V \<Longrightarrow>
     (cs \<noteq> [] \<longrightarrow> (hd cs, v) \<in> adj_edges adj) \<Longrightarrow>
     returns V d s (sc_post (adj_edges adj) cs s v) (strongconnect d adj v s)"
proof (induction d arbitrary: cs s v)
  case 0
  from 0(2,3) have "v \<in> V - dom (indices s)" by auto
  with fin have "0 < card (V - dom (indices s))" by (auto simp: card_gt_0_iff)
  then show ?case by (simp add: returns_def)
next
  case (Suc d)
  let ?E = "adj_edges adj"
  let ?s1 = "entered v s"
  let ?ws = "adj_get adj v"
  have succ: "\<forall>w. (v, w) \<in> ?E \<longrightarrow> w \<in> {} \<union> set ?ws" by (simp add: adj_edges_def)
  have ws: "\<forall>w \<in> set ?ws. (v, w) \<in> ?E \<and> w \<in> V" using clo by (auto simp: adj_edges_def)
  have inv1: "visit_inv ?E cs v (stack s) {} ?s1"
    by (rule visit_inv_entered [OF Suc.prems(1,2,4)])
  have rv: "returns V d ?s1 (\<lambda>s'. visit_inv ?E cs v (stack s) ({} \<union> set ?ws) s' \<and> frame {v} ?s1 s')
      (visit_successors d adj v ?ws ?s1)"
    using fin Suc.IH inv1 ws by (rule visit_successors_returns)
  show ?case
  proof (cases "visit_successors d adj v ?ws ?s1")
    case (Inl e)
    with rv have e: "e = RecursionError" and lt: "d < card (V - dom (indices ?s1))"
      by (simp_all add: returns_def)
    from Suc.prems(2,3) have vin: "v \<in> V - dom (indices s)" by auto
    have eq: "V - dom (indices ?s1) = (V - dom (indices s)) - {v}" by auto
    have "Suc (card ((V - dom (indices s)) - {v})) = card (V - dom (indices s))"
      using fin vin by (intro card_Suc_Diff1) auto
    with eq have "card (V - dom (indices s)) = Suc (card (V - dom (indices ?s1)))"
      by simp
    with lt e Inl show ?thesis by (simp add: strongconnect_Suc returns_def del: strongconnect.simps)
  next
    case (Inr s2)
    with rv have inv2: "visit_inv ?E cs v (stack s) ({} \<union> set ?ws) s2" and fr: "frame {v} ?s1 s2"
      by (simp_all add: returns_def)
    from inv2 obtain ys where sp: "stack s2 = ys @ v # stack s" by (rule visit_inv_stack)
    from inv2 obtain lv iv where lv: "low s2 v = Some lv" and iv: "indices s2 v = Some iv"
      by (rule visit_inv_low_defined)
    note f = visit_inv_facts [OF inv2 sp]
    from fr have iv1: "indices s2 v = Some (index s)" unfolding frame_def by simp
    have fr0: "frame {} s s2"
      unfolding frame_def
    proof (intro ballI conjI impI)
      fix x assume x: "x \<in> dom (indices s)"
      with Suc.prems(2) have xv: "x \<noteq> v" by auto
      then have "x \<in> dom (indices ?s1)" using x by simp
      with fr have "indices s2 x = indices ?s1 x" "x \<notin> {v} \<longrightarrow> low s2 x = low ?s1 x"
        unfolding frame_def by blast+
      with xv show "indices s2 x = indices s x" "low s2 x = low s x" by simp_all
    qed
    show ?thesis
    proof (cases "lv = iv")
      case True
      note o = stack_split_order [OF f(1) sp]
      have "set ys \<subseteq> onstack s2" "v \<in> onstack s2"
        using f(1) sp by (auto simp: tinv_state_def)
      moreover from o(3) have "distinct ys" by simp
      ultimately have pop: "pop_component v (stack s2) (onstack s2) [] =
          Inr (stack s, onstack s2 - set (ys @ [v]), [] @ ys @ [v])"
        unfolding sp using o(5) by (intro pop_component_split)
      let ?s3 = "s2\<lparr>stack := stack s, onstack := onstack s2 - set (ys @ [v]),
                    sccs := sccs s2 @ [ys @ [v]]\<rparr>"
      have res: "strongconnect (Suc d) adj v s = Inr ?s3"
        using Inr lv iv True pop by (simp add: strongconnect_Suc del: strongconnect.simps)
      from True lv iv have root: "lowlink s2 v = idx s2 v" by simp
      have "tinv ?E cs ?s3" by (rule tinv_popped [OF inv2 succ sp root])
      moreover from fr0 have "frame {} s ?s3" by (simp add: frame_def)
      moreover have "indices ?s3 v = Some (index s)" using iv1 by simp
      moreover have "stack ?s3 = [] @ stack s \<and> low ?s3 v = indices ?s3 v"
        using lv iv True by simp
      ultimately have "sc_post ?E cs s v ?s3" unfolding sc_post_def by blast
      with res show ?thesis by (simp add: returns_def)
    next
      case False
      have res: "strongconnect (Suc d) adj v s = Inr s2"
        using Inr lv iv False by (simp add: strongconnect_Suc del: strongconnect.simps)
      from False lv iv have nonroot: "lowlink s2 v \<noteq> idx s2 v" by simp
      note r = tinv_returned [OF inv2 succ sp nonroot]
      have "stack s2 = (ys @ [v]) @ stack s" using sp by simp
      moreover have "ys @ [v] \<noteq> []" "last (ys @ [v]) = v" by simp_all
      ultimately have "sc_post ?E cs s v s2"
        unfolding sc_post_def using r fr0 iv1 by blast
      with res show ?thesis by (simp add: returns_def)
    qed
  qed
qed


subsection \<open>The adjacency\<close>

lemma adj_get_setdefault [simp]: "adj_get (adj_setdefault k adj) v = adj_get adj v"
proof (cases "k \<in> fst ` set adj")
  case True
  then show ?thesis by (simp add: adj_setdefault_def)
next
  case False
  then have "map_of adj k = None" by (simp add: map_of_eq_None_iff)
  then show ?thesis
    by (auto simp: adj_setdefault_def adj_get_def map_add_def split: option.splits)
qed

lemma keys_setdefault [simp]:
  "fst ` set (adj_setdefault k adj) = insert k (fst ` set adj)"
  by (auto simp: adj_setdefault_def)

lemma map_of_adj_add:
  "map_of (adj_add a b adj) v =
     (if v = a then map_option (set_add b) (map_of adj v) else map_of adj v)"
  by (induction adj) (auto simp: adj_add_def)

lemma adj_get_add:
  "a \<in> fst ` set adj \<Longrightarrow>
   adj_get (adj_add a b adj) v = (if v = a then set_add b (adj_get adj a) else adj_get adj v)"
proof -
  assume "a \<in> fst ` set adj"
  then obtain ws where "map_of adj a = Some ws"
    by (metis map_of_eq_None_iff not_Some_eq)
  then show ?thesis by (simp add: adj_get_def map_of_adj_add)
qed

lemma keys_add [simp]: "fst ` set (adj_add a b adj) = fst ` set adj"
  by (force simp: adj_add_def)

lemma adj_edges_setdefault [simp]: "adj_edges (adj_setdefault k adj) = adj_edges adj"
  by (simp add: adj_edges_def)

lemma adj_edges_add:
  assumes "a \<in> fst ` set adj"
  shows "adj_edges (adj_add a b adj) = insert (a, b) (adj_edges adj)"
proof -
  have "\<And>v. adj_get (adj_add a b adj) v =
      (if v = a then set_add b (adj_get adj a) else adj_get adj v)"
    by (rule adj_get_add [OF assms])
  then show ?thesis by (auto simp: adj_edges_def split: if_splits)
qed

lemma adj_edges_Nil [simp]: "adj_edges [] = {}"
  by (simp add: adj_edges_def adj_get_def)

lemma adjacency_of_edges_props:
  "adj_edges (adjacency_of_edges es adj) = adj_edges adj \<union> set es \<and>
   fst ` set (adjacency_of_edges es adj) = fst ` set adj \<union> fst ` set es \<union> snd ` set es"
proof (induction es arbitrary: adj)
  case Nil
  then show ?case by simp
next
  case (Cons e es)
  obtain a b where e: "e = (a, b)" by (cases e)
  let ?adj = "adj_setdefault b (adj_add a b (adj_setdefault a adj))"
  have 1: "adj_edges ?adj = insert (a, b) (adj_edges adj)"
    by (simp add: adj_edges_add)
  have 2: "fst ` set ?adj = insert b (insert a (fst ` set adj))" by simp
  from Cons.IH [of ?adj]
  have "adj_edges (adjacency_of_edges es ?adj) = adj_edges ?adj \<union> set es"
    and "fst ` set (adjacency_of_edges es ?adj) = fst ` set ?adj \<union> fst ` set es \<union> snd ` set es"
    by simp_all
  then have "adj_edges (adjacency_of_edges (e # es) adj) = adj_edges adj \<union> set (e # es)"
    and "fst ` set (adjacency_of_edges (e # es) adj) =
       fst ` set adj \<union> fst ` set (e # es) \<union> snd ` set (e # es)"
    unfolding 1 2 by (auto simp: e)
  then show ?case by simp
qed

lemma fold_setdefault_edges [simp]:
  "adj_edges (fold adj_setdefault xs adj) = adj_edges adj"
  by (induction xs arbitrary: adj) auto

lemma fold_setdefault_keys [simp]:
  "fst ` set (fold adj_setdefault xs adj) = fst ` set adj \<union> set xs"
  by (induction xs arbitrary: adj) auto

lemma build_adjacency_edges [simp]: "adj_edges (build_adjacency g) = set (edges g)"
  by (simp add: build_adjacency_def adjacency_of_edges_props)

lemma build_adjacency_keys:
  "fst ` set (build_adjacency g) =
     fst ` set (edges g) \<union> snd ` set (edges g) \<union> set (target_nodes g) \<union> set (lib_nodes g)"
  by (auto simp: build_adjacency_def adjacency_of_edges_props)

end
